theory Spec2Isabelle
  imports Complex_Main "HOL-Library.Log_Nat"
begin

section \<open>Raw-data dashboard: API client, synchronisation core and aggregation\<close>

text \<open>
  The development embeds the two source files of the dashboard client:
  the API client (\<^verbatim>\<open>requestJson\<close>, \<^verbatim>\<open>getSummary\<close>, \<^verbatim>\<open>getFilePreview\<close>) and the
  \<^verbatim>\<open>App\<close> component of \<^verbatim>\<open>App.jsx\<close> (its six state variables, the \<^verbatim>\<open>refresh\<close>
  function, the preview effect and the derived check aggregates).
\<close>

subsection \<open>JavaScript numbers\<close>

text \<open>
  \<^verbatim>\<open>passing / checks.length\<close> and \<^verbatim>\<open>... * 100\<close> are operations on JavaScript Numbers,
  that is IEEE-754 binary64 values: each operation returns the exact result rounded to
  the nearest value with a 53-bit significand, ties to the even significand.
  A Number is represented by the rational it denotes (the counts are integers far below
  \<open>2 ^ 53\<close>, which binary64 holds exactly). \<open>fl64\<close> is that rounding; the
  exponent range is left unbounded, which agrees with binary64 for magnitudes from
  \<open>1 / 2 ^ 1022\<close> to below \<open>2 ^ 1024\<close> (the quotients and products computed by the
  component are 0 or lie between \<open>1 / length\<close> and a little over 100).
\<close>

definition pow2 :: "int \<Rightarrow> rat" where
  "pow2 e = (if 0 \<le> e then 2 ^ nat e else inverse (2 ^ nat (- e)))"

definition round_half_even :: "rat \<Rightarrow> int" where
  "round_half_even q =
     (let f = \<lfloor>q\<rfloor>; r = q - of_int f in
      if r < 1 / 2 then f
      else if 1 / 2 < r then f + 1
      else if even f then f else f + 1)"

text \<open>The exponent \<open>e\<close> with \<open>2 ^ e \<le> q < 2 ^ (e + 1)\<close>, for a positive \<open>q\<close>.\<close>

definition binade :: "rat \<Rightarrow> int" where
  "binade q =
     (case quotient_of q of (a, b) \<Rightarrow>
        let g = bitlen a - bitlen b in
        if of_int a < of_int b * pow2 g then g - 1 else g)"

definition fl64 :: "rat \<Rightarrow> rat" where
  "fl64 q =
     (if q = 0 then 0
      else let ulp = pow2 (binade \<bar>q\<bar> - 52)
           in of_int (round_half_even (q / ulp)) * ulp)"

definition num_div :: "rat \<Rightarrow> rat \<Rightarrow> rat" where
  "num_div x y = fl64 (x / y)"

definition num_mul :: "rat \<Rightarrow> rat \<Rightarrow> rat" where
  "num_mul x y = fl64 (x * y)"

text \<open>
  \<^verbatim>\<open>Math.round\<close> returns the integer nearest to its argument, the larger one at a tie.
\<close>

definition Math_round :: "rat \<Rightarrow> int" where
  "Math_round x = \<lfloor>x + 1 / 2\<rfloor>"

subsection \<open>Payloads received from the backend\<close>

record check_record =
  check_id :: string
  check_file :: string
  title :: string
  status :: string
  details :: string

record file_record =
  file_name :: string
  rows :: "nat option"
  columns :: "nat option"
  is_csv :: bool

record summary_stats =
  total_files :: nat
  csv_files :: nat
  total_rows :: nat
  total_size_bytes :: nat
  scanned_at :: string

text \<open>
  The component reads \<^verbatim>\<open>data.files?.length\<close>, \<^verbatim>\<open>payload?.files || []\<close> and
  \<^verbatim>\<open>payload?.checks || []\<close>: each part of the payload may be absent.
\<close>

record summary_payload =
  summary :: "summary_stats option"
  files :: "file_record list option"
  checks :: "check_record list option"

type_synonym row = "(string \<times> string) list"

datatype preview_payload = Preview_rows "row list" | Preview_error string

subsection \<open>Aggregation (\<^verbatim>\<open>App.jsx\<close>, lines 99 to 102)\<close>

definition passing :: "check_record list \<Rightarrow> nat" where
  "passing cs = length (filter (\<lambda>c. status c = ''pass'') cs)"

definition warn :: "check_record list \<Rightarrow> nat" where
  "warn cs = length (filter (\<lambda>c. status c = ''warn'') cs)"

definition fail :: "check_record list \<Rightarrow> nat" where
  "fail cs = length (filter (\<lambda>c. status c = ''fail'') cs)"

definition checkRate :: "check_record list \<Rightarrow> int" where
  "checkRate cs =
     (if length cs = 0 then 0
      else Math_round (num_mul (num_div (of_nat (passing cs)) (of_nat (length cs))) 100))"

text \<open>
  The rate as the specification words it (section 4.4): the exact quotient
  \<open>passing / length\<close> times 100, rounded to an integer, ties rounded up or to even.
\<close>

definition spec_checkRate_half_up :: "check_record list \<Rightarrow> int" where
  "spec_checkRate_half_up cs =
     (if length cs = 0 then 0
      else \<lfloor>(of_nat (passing cs) / of_nat (length cs) * 100 :: rat) + 1 / 2\<rfloor>)"

definition spec_checkRate_half_even :: "check_record list \<Rightarrow> int" where
  "spec_checkRate_half_even cs =
     (if length cs = 0 then 0
      else round_half_even (of_nat (passing cs) / of_nat (length cs) * 100))"

text \<open>A check record with the given status, for concrete inputs.\<close>

definition check_with :: "string \<Rightarrow> check_record" where
  "check_with st =
     \<lparr>check_id = ''c'', check_file = ''a.csv'', title = ''t'', status = st, details = ''''\<rparr>"

definition checks_23_of_40 :: "check_record list" where
  "checks_23_of_40 = replicate 23 (check_with ''pass'') @ replicate 17 (check_with ''fail'')"

subsection \<open>API client\<close>

datatype js_error = Error (message: string)

text \<open>
  A \<^verbatim>\<open>Response\<close>: its status code, what \<^verbatim>\<open>text()\<close> settles to and what \<^verbatim>\<open>json()\<close>
  settles to. A promise settles to \<open>Inl\<close> of the error it rejects with or \<open>Inr\<close> of the
  value it resolves to. \<^verbatim>\<open>response.ok\<close> is true for a status from 200 to 299.
\<close>

datatype 'a response =
  Response (http_status: nat) (body_text: "js_error + string") (body_json: "js_error + 'a")

definition ok :: "'a response \<Rightarrow> bool" where
  "ok r \<longleftrightarrow> 200 \<le> http_status r \<and> http_status r \<le> 299"

text \<open>The decimal numeral a template literal prints for a non-negative integer.\<close>

function decimal :: "nat \<Rightarrow> string" where
  "decimal n =
     (if n < 10 then [''0123456789'' ! n]
      else decimal (n div 10) @ [''0123456789'' ! (n mod 10)])"
  by pat_completeness auto
termination
  by (relation "measure (\<lambda>n. n)") auto

text \<open>
  \<^verbatim>\<open>encodeURIComponent\<close> on a string given as its UTF-8 bytes: every byte other than
  an unreserved character becomes \<^verbatim>\<open>%XX\<close>.
\<close>

definition unreserved :: "char \<Rightarrow> bool" where
  "unreserved c \<longleftrightarrow>
     c \<in> set ''ABCDEFGHIJKLMNOPQRSTUVWXYZabcdefghijklmnopqrstuvwxyz0123456789-_.!~*'()''"

definition percent :: "char \<Rightarrow> string" where
  "percent c =
     (let n = (of_char c :: nat) in
      [CHR ''%'', ''0123456789ABCDEF'' ! (n div 16), ''0123456789ABCDEF'' ! (n mod 16)])"

definition encodeURIComponent :: "string \<Rightarrow> string" where
  "encodeURIComponent s = concat (map (\<lambda>c. if unreserved c then [c] else percent c) s)"

text \<open>
  \<^verbatim>\<open>API_BASE = import.meta.env.VITE_API_BASE || 'http://localhost:8000'\<close>; the
  environment variable is a parameter.
\<close>

definition API_BASE :: "string option \<Rightarrow> string" where
  "API_BASE env =
     (case env of
        None \<Rightarrow> ''http://localhost:8000''
      | Some v \<Rightarrow> if v = [] then ''http://localhost:8000'' else v)"

text \<open>
  \<open>requestJson_settle\<close> is the body of \<^verbatim>\<open>requestJson\<close> after \<^verbatim>\<open>await fetch(url)\<close>: it
  maps what the transport's promise settled to onto what the promise of
  \<^verbatim>\<open>requestJson\<close> settles to.
\<close>

definition requestJson_settle :: "js_error + 'a response \<Rightarrow> js_error + 'a" where
  "requestJson_settle fetched =
     (case fetched of
        Inl e \<Rightarrow> Inl e
      | Inr response \<Rightarrow>
          if \<not> ok response then
            (case body_text response of
               Inl e \<Rightarrow> Inl e
             | Inr msg \<Rightarrow>
                 Inl (Error (''Request failed ('' @ decimal (http_status response) @ ''): '' @ msg)))
          else body_json response)"

definition requestJson :: "(string \<Rightarrow> js_error + 'a response) \<Rightarrow> string \<Rightarrow> js_error + 'a" where
  "requestJson fetch url = requestJson_settle (fetch url)"

definition summary_url :: "string option \<Rightarrow> string" where
  "summary_url env = API_BASE env @ ''/api/raw/dashboard/summary''"

definition preview_url :: "string option \<Rightarrow> string \<Rightarrow> nat \<Rightarrow> string" where
  "preview_url env encoded n =
     API_BASE env @ ''/api/raw/dashboard/file/'' @ encoded @ ''?rows='' @ decimal n"

definition getSummary ::
  "string option \<Rightarrow> (string \<Rightarrow> js_error + 'a response) \<Rightarrow> js_error + 'a" where
  "getSummary env fetch = requestJson fetch (summary_url env)"

definition getFilePreview ::
  "string option \<Rightarrow> (string \<Rightarrow> js_error + 'a response) \<Rightarrow> string \<Rightarrow> nat option \<Rightarrow> js_error + 'a"
  where
  "getFilePreview env fetch fileName rows_arg =
     (let n = (case rows_arg of None \<Rightarrow> 20 | Some r \<Rightarrow> r);
          encoded = encodeURIComponent fileName
      in requestJson fetch (preview_url env encoded n))"

subsection \<open>The \<^verbatim>\<open>App\<close> component\<close>

text \<open>The six \<^verbatim>\<open>useState\<close> variables.\<close>

record app_state =
  loading :: bool
  error :: string
  payload :: "summary_payload option"
  selectedFile :: string
  preview :: "preview_payload option"
  previewLoading :: bool

text \<open>
  What lives outside the state variables: the promises in flight and the closures that
  wait for them. A pending \<^verbatim>\<open>refresh\<close> holds the \<^verbatim>\<open>selectedFile\<close> of the render that
  created the \<^verbatim>\<open>refresh\<close> closure. A pending run of the preview effect holds the file name
  it asked for and its \<^verbatim>\<open>cancelled\<close> flag. \<open>cleanup\<close> is the cleanup function returned by
  the last run of the preview effect (it sets the flag of that run), \<open>calls\<close> the calls
  made to the API client so far.
\<close>

record preview_task =
  asked_file :: string
  cancelled :: bool

datatype api_call = GetSummary | GetFilePreview string nat

record runtime = app_state +
  summary_pending :: "nat \<rightharpoonup> string"
  preview_pending :: "nat \<rightharpoonup> preview_task"
  cleanup :: "nat option"
  next_id :: nat
  calls :: "api_call list"

definition initial :: runtime where
  "initial =
     \<lparr>loading = False, error = [], payload = None, selectedFile = [], preview = None,
      previewLoading = False,
      summary_pending = Map.empty, preview_pending = Map.empty, cleanup = None,
      next_id = 0, calls = []\<rparr>"

text \<open>\<^verbatim>\<open>refresh\<close> up to its \<^verbatim>\<open>await\<close> (lines 45 to 48).\<close>

definition refresh :: "runtime \<Rightarrow> runtime" where
  "refresh s =
     s\<lparr>loading := True, error := [],
       summary_pending := (summary_pending s)(next_id s \<mapsto> selectedFile s),
       next_id := Suc (next_id s),
       calls := calls s @ [GetSummary]\<rparr>"

text \<open>
  \<^verbatim>\<open>refresh\<close> from the \<^verbatim>\<open>await\<close> on (lines 48 to 57). \<open>seen\<close> is the \<^verbatim>\<open>selectedFile\<close>
  of the closure.
\<close>

definition refresh_resume :: "string \<Rightarrow> js_error + summary_payload \<Rightarrow> runtime \<Rightarrow> runtime" where
  "refresh_resume seen settled s =
     (case settled of
        Inr data \<Rightarrow>
          let s1 = s\<lparr>payload := Some data\<rparr>;
              s2 = (case files data of
                      Some (f # _) \<Rightarrow> if seen = [] then s1\<lparr>selectedFile := file_name f\<rparr> else s1
                    | _ \<Rightarrow> s1)
          in s2\<lparr>loading := False\<rparr>
      | Inl err \<Rightarrow>
          s\<lparr>error := (if message err = [] then ''Failed to load dashboard'' else message err),
            loading := False\<rparr>)"

text \<open>The cleanup of the previous run of the preview effect (lines 90 to 92).\<close>

definition run_cleanup :: "runtime \<Rightarrow> runtime" where
  "run_cleanup s =
     (case cleanup s of
        None \<Rightarrow> s
      | Some pid \<Rightarrow>
          s\<lparr>preview_pending :=
              (case preview_pending s pid of
                 None \<Rightarrow> preview_pending s
               | Some t \<Rightarrow> (preview_pending s)(pid \<mapsto> t\<lparr>cancelled := True\<rparr>)),
            cleanup := None\<rparr>)"

text \<open>
  The preview effect (lines 64 to 93) up to the \<^verbatim>\<open>await\<close> of \<^verbatim>\<open>run\<close>, after the cleanup
  of its previous run.
\<close>

definition preview_effect :: "runtime \<Rightarrow> runtime" where
  "preview_effect s0 =
     (let s = run_cleanup s0 in
      if selectedFile s = [] then s\<lparr>preview := None\<rparr>
      else
        s\<lparr>previewLoading := True,
          preview_pending :=
            (preview_pending s)(next_id s \<mapsto> \<lparr>asked_file = selectedFile s, cancelled = False\<rparr>),
          cleanup := Some (next_id s),
          next_id := Suc (next_id s),
          calls := calls s @ [GetFilePreview (selectedFile s) 20]\<rparr>)"

text \<open>\<^verbatim>\<open>run\<close> from its \<^verbatim>\<open>await\<close> on (lines 74 to 86), with the flag as it is then.\<close>

definition preview_resume :: "bool \<Rightarrow> js_error + preview_payload \<Rightarrow> runtime \<Rightarrow> runtime" where
  "preview_resume flag settled s =
     (let s1 = (case settled of
                  Inr nxt \<Rightarrow> if \<not> flag then s\<lparr>preview := Some nxt\<rparr> else s
                | Inl err \<Rightarrow> if \<not> flag then s\<lparr>preview := Some (Preview_error (message err))\<rparr> else s)
      in if \<not> flag then s1\<lparr>previewLoading := False\<rparr> else s1)"

text \<open>
  After the state updates of one event React renders again and runs the preview effect
  when its dependency \<^verbatim>\<open>selectedFile\<close> differs from the previous render's.
\<close>

definition commit :: "string \<Rightarrow> runtime \<Rightarrow> runtime" where
  "commit prev s = (if selectedFile s = prev then s else preview_effect s)"

text \<open>The rows of the files table: \<^verbatim>\<open>payload?.files || []\<close>.\<close>

definition files_of :: "runtime \<Rightarrow> file_record list" where
  "files_of s =
     (case payload s of
        None \<Rightarrow> []
      | Some p \<Rightarrow> (case files p of None \<Rightarrow> [] | Some fs \<Rightarrow> fs))"

definition checks_of :: "runtime \<Rightarrow> check_record list" where
  "checks_of s =
     (case payload s of
        None \<Rightarrow> []
      | Some p \<Rightarrow> (case checks p of None \<Rightarrow> [] | Some cs \<Rightarrow> cs))"

text \<open>
  The events of the component: a click on the refresh button (disabled while
  \<^verbatim>\<open>loading\<close>), a click on a row of the files table, and the settling of the transport
  promise of a pending summary or preview request. Each event is processed to the end,
  including the render and the effects it causes, before the next one.
\<close>

datatype event =
    Click_refresh
  | Click_row nat
  | Summary_settled nat "js_error + summary_payload response"
  | Preview_settled nat "js_error + preview_payload response"

fun step :: "runtime \<Rightarrow> event \<Rightarrow> runtime" where
  "step s Click_refresh = (if loading s then s else refresh s)"
| "step s (Click_row i) =
     (if i < length (files_of s)
      then commit (selectedFile s) (s\<lparr>selectedFile := file_name (files_of s ! i)\<rparr>)
      else s)"
| "step s (Summary_settled rid fetched) =
     (case summary_pending s rid of
        None \<Rightarrow> s
      | Some seen \<Rightarrow>
          commit (selectedFile s)
            (refresh_resume seen (requestJson_settle fetched)
               (s\<lparr>summary_pending := (summary_pending s)(rid := None)\<rparr>)))"
| "step s (Preview_settled pid fetched) =
     (case preview_pending s pid of
        None \<Rightarrow> s
      | Some t \<Rightarrow>
          preview_resume (cancelled t) (requestJson_settle fetched)
            (s\<lparr>preview_pending := (preview_pending s)(pid := None)\<rparr>))"

text \<open>The first render runs both effects in order: \<^verbatim>\<open>refresh()\<close>, then the preview effect.\<close>

definition start :: runtime where
  "start = preview_effect (refresh initial)"

definition run :: "runtime \<Rightarrow> event list \<Rightarrow> runtime" where
  "run s evs = foldl step s evs"

text \<open>What the settling of a preview request stores when its flag is not set.\<close>

definition stored_outcome :: "js_error + preview_payload \<Rightarrow> preview_payload" where
  "stored_outcome settled =
     (case settled of Inr nxt \<Rightarrow> nxt | Inl err \<Rightarrow> Preview_error (message err))"

text \<open>The state variables of a runtime state.\<close>

definition vars :: "runtime \<Rightarrow> app_state" where
  "vars s =
     \<lparr>loading = loading s, error = error s, payload = payload s,
      selectedFile = selectedFile s, preview = preview s, previewLoading = previewLoading s\<rparr>"

text \<open>
  What holds of the pending preview requests in every state the component can reach.
  \<open>tracked\<close>: request numbers are below \<open>next_id\<close>; a pending request whose flag is
  not set is the one of the last run of the effect and \<^verbatim>\<open>previewLoading\<close> is set; no
  pending request is newer than the one of the last run. \<open>consistent\<close>: moreover such a
  request asked for the selected file, and an empty selection has no cleanup.
\<close>

definition tracked :: "runtime \<Rightarrow> bool" where
  "tracked s \<longleftrightarrow>
     (\<forall>pid t. preview_pending s pid = Some t \<longrightarrow> pid < next_id s) \<and>
     (\<forall>c. cleanup s = Some c \<longrightarrow> c < next_id s) \<and>
     (\<forall>pid t. preview_pending s pid = Some t \<longrightarrow> \<not> cancelled t \<longrightarrow>
        cleanup s = Some pid \<and> previewLoading s) \<and>
     (\<forall>pid t c. preview_pending s pid = Some t \<longrightarrow> cleanup s = Some c \<longrightarrow> pid \<le> c)"

definition consistent :: "runtime \<Rightarrow> bool" where
  "consistent s \<longleftrightarrow>
     tracked s \<and>
     (\<forall>pid t. preview_pending s pid = Some t \<longrightarrow> \<not> cancelled t \<longrightarrow>
        asked_file t = selectedFile s) \<and>
     (selectedFile s = [] \<longrightarrow> cleanup s = None)"

text \<open>The selection is empty after each of the events.\<close>

fun stays_empty :: "runtime \<Rightarrow> event list \<Rightarrow> bool" where
  "stays_empty s [] = True"
| "stays_empty s (e # evs) = (selectedFile (step s e) = [] \<and> stays_empty (step s e) evs)"

text \<open>
  A \<^verbatim>\<open>refresh\<close> is in flight; \<^verbatim>\<open>loading\<close> is set exactly while one is, and there is at
  most one.
\<close>

definition refresh_in_flight :: "runtime \<Rightarrow> bool" where
  "refresh_in_flight s \<longleftrightarrow> (\<exists>rid seen. summary_pending s rid = Some seen)"

definition loading_tracks_refresh :: "runtime \<Rightarrow> bool" where
  "loading_tracks_refresh s \<longleftrightarrow>
     (loading s \<longleftrightarrow> refresh_in_flight s) \<and>
     (\<forall>rid seen rid' seen'.
        summary_pending s rid = Some seen \<longrightarrow> summary_pending s rid' = Some seen' \<longrightarrow> rid' = rid)"

text \<open>
  Payloads in which no file has the empty name, and what then holds in every reachable
  state: the files shown have non-empty names, a selection exists once files are shown,
  and there is at most one pending \<^verbatim>\<open>refresh\<close>, whose closure saw an empty selection
  exactly when the selection is empty now.
\<close>

definition named_files :: "summary_payload \<Rightarrow> bool" where
  "named_files data =
     (case files data of None \<Rightarrow> True | Some fs \<Rightarrow> list_all (\<lambda>f. file_name f \<noteq> []) fs)"

fun named_event :: "event \<Rightarrow> bool" where
  "named_event (Summary_settled rid fetched) =
     (case requestJson_settle fetched of Inl err \<Rightarrow> True | Inr data \<Rightarrow> named_files data)"
| "named_event e = True"

definition single_refresh :: "runtime \<Rightarrow> bool" where
  "single_refresh s \<longleftrightarrow>
     list_all (\<lambda>f. file_name f \<noteq> []) (files_of s) \<and>
     (files_of s \<noteq> [] \<longrightarrow> selectedFile s \<noteq> []) \<and>
     (\<forall>rid seen. summary_pending s rid = Some seen \<longrightarrow>
        loading s \<and> (seen = [] \<longleftrightarrow> selectedFile s = []) \<and>
        (\<forall>rid' seen'. summary_pending s rid' = Some seen' \<longrightarrow> rid' = rid))"

subsection \<open>Concrete inputs\<close>

definition file_named :: "string \<Rightarrow> file_record" where
  "file_named n = \<lparr>file_name = n, rows = None, columns = None, is_csv = True\<rparr>"

definition summary_of :: "string list \<Rightarrow> summary_payload" where
  "summary_of names = \<lparr>summary = None, files = Some (map file_named names), checks = None\<rparr>"

definition ok_summary :: "string list \<Rightarrow> js_error + summary_payload response" where
  "ok_summary names = Inr (Response 200 (Inr ''{}'') (Inr (summary_of names)))"

definition ok_preview :: "row list \<Rightarrow> js_error + preview_payload response" where
  "ok_preview rws = Inr (Response 200 (Inr ''{}'') (Inr (Preview_rows rws)))"

definition not_found :: "'a response" where
  "not_found = Response 404 (Inr ''File not found'') (Inl (Error ''Unexpected token''))"

text \<open>A response whose body cannot be read: \<^verbatim>\<open>text()\<close> and \<^verbatim>\<open>json()\<close> reject.\<close>

definition unreadable :: "'a response" where
  "unreadable = Response 500 (Inl (Error ''terminated'')) (Inl (Error ''terminated''))"

definition rows_a :: "row list" where
  "rows_a = [[(''id'', ''1'')]]"

definition rows_b :: "row list" where
  "rows_b = [[(''id'', ''2'')]]"

section \<open>Aggregation\<close>

lemma counts_le_length: "passing cs + warn cs + fail cs \<le> length cs"
  unfolding passing_def warn_def fail_def
  by (induction cs) auto

lemma counts_eq_length_iff:
  "passing cs + warn cs + fail cs = length cs \<longleftrightarrow>
   (\<forall>c \<in> set cs. status c = ''pass'' \<or> status c = ''warn'' \<or> status c = ''fail'')"
proof (induction cs)
  case Nil
  show ?case by (simp add: passing_def warn_def fail_def)
next
  case (Cons c cs)
  have le: "passing cs + warn cs + fail cs \<le> length cs"
    by (rule counts_le_length)
  show ?case
    using Cons.IH le
    by (auto simp: passing_def warn_def fail_def)
qed

text \<open>
  C6. For every list of checks, \<open>passing + warn + fail\<close> is at most the length of the
  list, and it is equal to the length exactly when the status of every check is one of
  \<^verbatim>\<open>"pass"\<close>, \<^verbatim>\<open>"warn"\<close> and \<^verbatim>\<open>"fail"\<close>.
\<close>

theorem counts_bounded_by_length:
  "passing cs + warn cs + fail cs \<le> length cs \<and>
   (passing cs + warn cs + fail cs = length cs \<longleftrightarrow>
    (\<forall>c \<in> set cs. status c \<in> {''pass'', ''warn'', ''fail''}))"
  using counts_le_length [of cs] counts_eq_length_iff [of cs] by simp

theorem counts_bounded_by_length_witness:
  "passing (map check_with [''pass'', ''warn'', ''fail'']) +
     warn (map check_with [''pass'', ''warn'', ''fail'']) +
     fail (map check_with [''pass'', ''warn'', ''fail'']) = 3 \<and>
   passing (map check_with [''pass'', ''skipped'']) +
     warn (map check_with [''pass'', ''skipped'']) +
     fail (map check_with [''pass'', ''skipped'']) < 2"
  using counts_bounded_by_length [of "map check_with [''pass'', ''warn'', ''fail'']"]
    counts_bounded_by_length [of "map check_with [''pass'', ''skipped'']"]
  by (simp add: check_with_def)

section \<open>Rounding to binary64\<close>

lemma pow2_powi: "pow2 e = 2 powi e"
  by (simp add: pow2_def power_int_def power_one_over inverse_eq_divide)

lemma pow2_pos: "0 < pow2 e"
  by (simp add: pow2_powi)

lemma pow2_split: "pow2 (e - 52) * 2 ^ 52 = pow2 e"
proof -
  have "pow2 e = 2 powi ((e - 52) + 52)"
    by (simp add: pow2_powi)
  also have "\<dots> = 2 powi (e - 52) * (2 powi 52 :: rat)"
    by (rule power_int_add) simp
  finally show ?thesis
    by (simp add: pow2_powi)
qed

lemma round_half_even_err: "\<bar>of_int (round_half_even q) - q\<bar> \<le> 1 / 2"
proof -
  let ?f = "\<lfloor>q\<rfloor>"
  have fl: "of_int ?f \<le> q" "q < of_int ?f + 1"
    by linarith+
  consider "q - of_int ?f < 1 / 2" | "1 / 2 < q - of_int ?f" | "q - of_int ?f = 1 / 2"
    by linarith
  then show ?thesis
  proof cases
    case 1
    then have "round_half_even q = ?f"
      by (simp add: round_half_even_def Let_def)
    moreover have "\<bar>of_int ?f - q\<bar> \<le> 1 / 2"
      using fl 1 by linarith
    ultimately show ?thesis by simp
  next
    case 2
    then have "round_half_even q = ?f + 1"
      by (simp add: round_half_even_def Let_def)
    moreover have "\<bar>of_int (?f + 1) - q\<bar> \<le> 1 / 2"
      using fl 2 by simp
    ultimately show ?thesis by simp
  next
    case 3
    then have "round_half_even q = ?f \<or> round_half_even q = ?f + 1"
      by (simp add: round_half_even_def Let_def)
    moreover have "\<bar>of_int ?f - q\<bar> \<le> 1 / 2" "\<bar>of_int (?f + 1) - q\<bar> \<le> 1 / 2"
      using fl 3 by simp_all
    ultimately show ?thesis by auto
  qed
qed

lemma binade_le:
  assumes "0 < q"
  shows "pow2 (binade q) \<le> q"
proof -
  obtain a b where ab: "quotient_of q = (a, b)"
    by (cases "quotient_of q")
  then have b: "0 < b" and q: "q = of_int a / of_int b"
    by (simp_all add: quotient_of_denom_pos quotient_of_div)
  with assms have a: "0 < a"
    by (simp add: zero_less_divide_iff)
  let ?g = "bitlen a - bitlen b"
  show ?thesis
  proof (cases "(of_int a :: rat) < of_int b * pow2 ?g")
    case True
    then have bin: "binade q = ?g - 1"
      by (simp add: binade_def ab Let_def)
    have la: "1 \<le> bitlen a" and lb: "1 \<le> bitlen b"
      using a b by (simp_all add: bitlen_alt_def)
    have "(2::int) ^ nat (bitlen a - 1) \<le> a"
      using bitlen_bounds [OF a] by simp
    then have "(of_int (2 ^ nat (bitlen a - 1)) :: rat) \<le> of_int a"
      by (simp only: of_int_le_iff)
    then have lo: "(2 powi (bitlen a - 1) :: rat) \<le> of_int a"
      using la by (simp add: power_int_def)
    have "b < 2 ^ nat (bitlen b)"
      using bitlen_bounds [OF b] by simp
    then have "(of_int b :: rat) < of_int (2 ^ nat (bitlen b))"
      by (simp only: of_int_less_iff)
    then have hi: "(of_int b :: rat) < 2 powi (bitlen b)"
      using lb by (simp add: power_int_def)
    have "pow2 (?g - 1) = 2 powi ((bitlen a - 1) - bitlen b)"
      by (simp add: pow2_powi algebra_simps)
    also have "\<dots> = 2 powi (bitlen a - 1) / (2 powi (bitlen b) :: rat)"
      by (rule power_int_diff) simp
    finally have "pow2 (?g - 1) * of_int b = 2 powi (bitlen a - 1) * (of_int b / 2 powi (bitlen b))"
      by simp
    also have "\<dots> \<le> 2 powi (bitlen a - 1) * 1"
    proof (rule mult_left_mono)
      show "of_int b / 2 powi bitlen b \<le> (1::rat)"
        using hi by (simp add: divide_le_eq)
      show "(0::rat) \<le> 2 powi (bitlen a - 1)"
        by simp
    qed
    also have "\<dots> \<le> of_int a"
      using lo by simp
    finally have "pow2 (?g - 1) \<le> of_int a / of_int b"
      using b by (simp add: pos_le_divide_eq)
    with bin q show ?thesis by simp
  next
    case False
    then have bin: "binade q = ?g"
      by (simp add: binade_def ab Let_def)
    from False have "pow2 ?g * of_int b \<le> of_int a"
      by (simp add: mult.commute)
    then have "pow2 ?g \<le> of_int a / of_int b"
      using b by (simp add: pos_le_divide_eq)
    with bin q show ?thesis by simp
  qed
qed

lemma fl64_zero [simp]: "fl64 0 = 0"
  by (simp add: fl64_def)

lemma fl64_err:
  assumes "0 < q"
  shows "\<bar>fl64 q - q\<bar> \<le> q / 2 ^ 53"
proof -
  let ?u = "pow2 (binade q - 52)"
  let ?m = "round_half_even (q / ?u)"
  have u: "0 < ?u"
    by (rule pow2_pos)
  have f: "fl64 q = of_int ?m * ?u"
    using assms by (simp add: fl64_def Let_def)
  have "?u * 2 ^ 52 \<le> q"
    using binade_le [OF assms] by (simp only: pow2_split)
  then have ulp: "?u / 2 \<le> q / 2 ^ 53"
    by simp
  have "fl64 q - q = (of_int ?m - q / ?u) * ?u"
    using u by (simp add: f field_simps)
  then have "\<bar>fl64 q - q\<bar> = \<bar>of_int ?m - q / ?u\<bar> * ?u"
    using u by (simp add: abs_mult)
  also have "\<dots> \<le> (1 / 2) * ?u"
    using round_half_even_err [of "q / ?u"] u by (intro mult_right_mono) simp_all
  also have "\<dots> \<le> q / 2 ^ 53"
    using ulp by simp
  finally show ?thesis .
qed

lemma percent_err:
  assumes "0 \<le> x"
  shows "\<bar>fl64 (fl64 x * 100) - 100 * x\<bar> \<le> x / 2 ^ 44"
proof (cases "x = 0")
  case True
  then show ?thesis by simp
next
  case False
  with assms have x: "0 < x" by simp
  let ?x1 = "fl64 x"
  have e1: "\<bar>?x1 - x\<bar> \<le> x / 2 ^ 53"
    by (rule fl64_err [OF x])
  have "?x1 - x \<le> x / 2 ^ 53" and "- (?x1 - x) \<le> x / 2 ^ 53"
    using e1 by (rule abs_le_D1, rule abs_le_D2)
  then have x1: "0 < ?x1" and x1u: "?x1 \<le> 2 * x"
    using x by simp_all
  have e2: "\<bar>fl64 (?x1 * 100) - ?x1 * 100\<bar> \<le> (?x1 * 100) / 2 ^ 53"
    using x1 by (intro fl64_err) simp
  have "fl64 (?x1 * 100) - 100 * x = (fl64 (?x1 * 100) - ?x1 * 100) + 100 * (?x1 - x)"
    by simp
  then have "\<bar>fl64 (?x1 * 100) - 100 * x\<bar> \<le>
      \<bar>fl64 (?x1 * 100) - ?x1 * 100\<bar> + \<bar>100 * (?x1 - x)\<bar>"
    by (simp only: abs_triangle_ineq)
  also have "\<bar>100 * (?x1 - x)\<bar> = 100 * \<bar>?x1 - x\<bar>"
    by (simp only: abs_mult abs_numeral)
  finally have "\<bar>fl64 (?x1 * 100) - 100 * x\<bar> \<le>
      \<bar>fl64 (?x1 * 100) - ?x1 * 100\<bar> + 100 * \<bar>?x1 - x\<bar>" .
  also have "\<dots> \<le> (?x1 * 100) / 2 ^ 53 + 100 * (x / 2 ^ 53)"
    using e1 e2 by simp
  also have "\<dots> \<le> (2 * x * 100) / 2 ^ 53 + 100 * (x / 2 ^ 53)"
    using x1u by simp
  also have "\<dots> \<le> x / 2 ^ 44"
    using x by simp
  finally show ?thesis .
qed

lemma Math_round_lattice:
  fixes p n :: nat and y :: rat
  assumes n: "0 < n" "n < 2 ^ 43" and pn: "p \<le> n"
    and y: "\<bar>y - 100 * (of_nat p / of_nat n)\<bar> \<le> (of_nat p / of_nat n) / 2 ^ 44"
  shows "(2 * Math_round y - 1) * int n \<le> 200 * int p"
    and "200 * int p \<le> (2 * Math_round y + 1) * int n"
proof -
  define N :: rat where "N = of_nat n"
  define P :: rat where "P = of_nat p"
  define r where "r = Math_round y"
  define RN :: rat where "RN = of_int r * N"
  have N: "0 < N"
    using n(1) by (simp add: N_def)
  have "(of_nat n :: rat) < of_nat (2 ^ 43)"
    using n(2) by (simp only: of_nat_less_iff)
  then have N2: "N < 2 ^ 43"
    by (simp add: N_def)
  have PN: "P \<le> N"
    using pn by (simp add: P_def N_def)
  have x0: "0 \<le> P / N"
    using N by (simp add: P_def)
  have x1: "P / N \<le> 1"
    using N PN by (simp add: divide_le_eq)
  have r: "of_int r \<le> y + 1 / 2" "y + 1 / 2 < of_int r + 1"
    unfolding r_def Math_round_def by linarith+
  have "y - 100 * (P / N) \<le> (P / N) / 2 ^ 44" and "- (y - 100 * (P / N)) \<le> (P / N) / 2 ^ 44"
    using y unfolding P_def N_def by (rule abs_le_D1, rule abs_le_D2)
  then have lo: "of_int r - 1 / 2 - 1 / 2 ^ 44 \<le> (100 * P) / N"
    and hi: "(100 * P) / N < of_int r + 1 / 2 + 1 / 2 ^ 44"
    using r x1 x0 by simp_all
  have dist: "(of_int r - 1 / 2 - 1 / 2 ^ 44) * N = RN - N / 2 - N / 2 ^ 44"
    "(of_int r + 1 / 2 + 1 / 2 ^ 44) * N = RN + N / 2 + N / 2 ^ 44"
    by (simp_all add: RN_def left_diff_distrib distrib_right)
  have ints: "(of_int ((2 * r - 1) * int n - 1) :: rat) = 2 * RN - N - 1"
    "(of_int (200 * int p) :: rat) = 200 * P"
    "(of_int ((2 * r + 1) * int n + 1) :: rat) = 2 * RN + N + 1"
    by (simp_all add: RN_def N_def P_def left_diff_distrib distrib_right)
  from lo have "(of_int r - 1 / 2 - 1 / 2 ^ 44) * N \<le> 100 * P"
    by (simp only: pos_le_divide_eq [OF N])
  then have "RN - N / 2 - N / 2 ^ 44 \<le> 100 * P"
    by (simp only: dist)
  then have "2 * RN - N - 1 < 200 * P"
    using N2 by simp
  then have "(of_int ((2 * r - 1) * int n - 1) :: rat) < of_int (200 * int p)"
    by (simp only: ints)
  then have "(2 * r - 1) * int n - 1 < 200 * int p"
    by (simp only: of_int_less_iff)
  then show "(2 * Math_round y - 1) * int n \<le> 200 * int p"
    unfolding r_def by linarith
  from hi have "100 * P < (of_int r + 1 / 2 + 1 / 2 ^ 44) * N"
    by (simp only: pos_divide_less_eq [OF N])
  then have "100 * P < RN + N / 2 + N / 2 ^ 44"
    by (simp only: dist)
  then have "200 * P < 2 * RN + N + 1"
    using N2 by simp
  then have "(of_int (200 * int p) :: rat) < of_int ((2 * r + 1) * int n + 1)"
    by (simp only: ints)
  then have "200 * int p < (2 * r + 1) * int n + 1"
    by (simp only: of_int_less_iff)
  then show "200 * int p \<le> (2 * Math_round y + 1) * int n"
    unfolding r_def by linarith
qed

lemma checkRate_unfold:
  "cs \<noteq> [] \<Longrightarrow>
   checkRate cs = Math_round (fl64 (fl64 (of_nat (passing cs) / of_nat (length cs)) * 100))"
  by (simp add: checkRate_def num_mul_def num_div_def)

lemma passing_le_length: "passing cs \<le> length cs"
  by (simp add: passing_def)

lemma checkRate_lattice:
  assumes "cs \<noteq> []" and "length cs < 2 ^ 43"
  shows "(2 * checkRate cs - 1) * int (length cs) \<le> 200 * int (passing cs)"
    and "200 * int (passing cs) \<le> (2 * checkRate cs + 1) * int (length cs)"
proof -
  let ?x = "of_nat (passing cs) / of_nat (length cs) :: rat"
  have n: "0 < length cs"
    using assms(1) by simp
  have "0 \<le> ?x"
    by simp
  then have err: "\<bar>fl64 (fl64 ?x * 100) - 100 * ?x\<bar> \<le> ?x / 2 ^ 44"
    by (rule percent_err)
  show "(2 * checkRate cs - 1) * int (length cs) \<le> 200 * int (passing cs)"
    unfolding checkRate_unfold [OF assms(1)]
    by (rule Math_round_lattice(1) [OF n assms(2) passing_le_length err])
  show "200 * int (passing cs) \<le> (2 * checkRate cs + 1) * int (length cs)"
    unfolding checkRate_unfold [OF assms(1)]
    by (rule Math_round_lattice(2) [OF n assms(2) passing_le_length err])
qed

lemma checkRate_range: "0 \<le> checkRate cs \<and> checkRate cs \<le> 100"
proof (cases "cs = []")
  case True
  then show ?thesis by (simp add: checkRate_def)
next
  case False
  let ?x = "of_nat (passing cs) / of_nat (length cs) :: rat"
  let ?y = "fl64 (fl64 ?x * 100)"
  have n: "(0::rat) < of_nat (length cs)"
    using False by simp
  have x0: "0 \<le> ?x"
    by simp
  have "(of_nat (passing cs) :: rat) \<le> of_nat (length cs)"
    using passing_le_length [of cs] by (simp only: of_nat_le_iff)
  then have x1: "?x \<le> 1"
    using n by (simp add: divide_le_eq)
  have "\<bar>?y - 100 * ?x\<bar> \<le> ?x / 2 ^ 44"
    using x0 by (rule percent_err)
  then have "?y - 100 * ?x \<le> ?x / 2 ^ 44" and "- (?y - 100 * ?x) \<le> ?x / 2 ^ 44"
    by (rule abs_le_D1, rule abs_le_D2)
  then have "0 \<le> ?y + 1 / 2" and "?y + 1 / 2 < 101"
    using x0 x1 by simp_all
  then have "0 \<le> \<lfloor>?y + 1 / 2\<rfloor>" and "\<lfloor>?y + 1 / 2\<rfloor> < 101"
    by (simp_all add: floor_less_iff)
  then show ?thesis
    by (simp add: checkRate_unfold [OF False] Math_round_def)
qed

lemma half_percent: "Math_round (fl64 (fl64 (1 / 200) * 100)) = 1"
  by code_simp

section \<open>The pass rate\<close>

lemma Math_round_zero: "Math_round 0 = 0"
  unfolding Math_round_def by (rule floor_unique) simp_all

lemma checkRate_no_pass: "passing cs = 0 \<Longrightarrow> checkRate cs = 0"
  by (simp add: checkRate_def num_div_def num_mul_def Math_round_zero)

lemma counts_as_count_list:
  "passing cs = count_list (map status cs) ''pass''"
  "warn cs = count_list (map status cs) ''warn''"
  "fail cs = count_list (map status cs) ''fail''"
  by (induction cs) (simp_all add: passing_def warn_def fail_def)

lemma spec_half_up_cases:
  assumes "cs \<noteq> []" and "length cs < 2 ^ 43"
  shows "checkRate cs = spec_checkRate_half_up cs \<or>
         checkRate cs = spec_checkRate_half_up cs - 1 \<and>
         200 * int (passing cs) = (2 * checkRate cs + 1) * int (length cs)"
proof -
  define r where "r = checkRate cs"
  define N :: rat where "N = of_nat (length cs)"
  define P :: rat where "P = of_nat (passing cs)"
  have N: "0 < 2 * N"
    using assms(1) by (simp add: N_def)
  have lo: "(2 * r - 1) * int (length cs) \<le> 200 * int (passing cs)"
    and hi: "200 * int (passing cs) \<le> (2 * r + 1) * int (length cs)"
    unfolding r_def by (rule checkRate_lattice [OF assms])+
  have spec: "spec_checkRate_half_up cs = \<lfloor>P / N * 100 + 1 / 2\<rfloor>"
    using assms(1) by (simp add: spec_checkRate_half_up_def P_def N_def)
  have half: "P / N * 100 + 1 / 2 = (200 * P + N) / (2 * N)"
    using N by (simp add: field_simps)
  note to_quot = pos_le_divide_eq [OF N] pos_divide_less_eq [OF N]
  have "(of_int ((2 * r - 1) * int (length cs)) :: rat) \<le> of_int (200 * int (passing cs))"
    using lo by (simp only: of_int_le_iff)
  then have "of_int r * (2 * N) \<le> 200 * P + N"
    by (simp add: N_def P_def algebra_simps)
  then have ge: "of_int r \<le> P / N * 100 + 1 / 2"
    unfolding half by (simp only: to_quot)
  show ?thesis
  proof (cases "200 * int (passing cs) = (2 * r + 1) * int (length cs)")
    case True
    then have "(of_int (200 * int (passing cs)) :: rat) = of_int ((2 * r + 1) * int (length cs))"
      by (simp only:)
    then have "200 * P + N = of_int (r + 1) * (2 * N)"
      by (simp add: N_def P_def algebra_simps)
    then have "P / N * 100 + 1 / 2 = of_int (r + 1)"
      unfolding half using N by simp
    then have "spec_checkRate_half_up cs = r + 1"
      unfolding spec by (simp only: floor_of_int)
    with True show ?thesis
      by (simp add: r_def)
  next
    case False
    with hi have "200 * int (passing cs) < (2 * r + 1) * int (length cs)"
      by simp
    then have "(of_int (200 * int (passing cs)) :: rat) < of_int ((2 * r + 1) * int (length cs))"
      by (simp only: of_int_less_iff)
    then have "200 * P + N < (of_int r + 1) * (2 * N)"
      by (simp add: N_def P_def algebra_simps)
    then have "P / N * 100 + 1 / 2 < of_int r + 1"
      unfolding half by (simp only: to_quot)
    with ge have "\<lfloor>P / N * 100 + 1 / 2\<rfloor> = r"
      by (intro floor_unique)
    then show ?thesis
      by (simp add: spec r_def)
  qed
qed

lemma checkRate_nearest:
  assumes "cs \<noteq> []" and "length cs < 2 ^ 43"
  shows "\<bar>2 * checkRate cs * int (length cs) - 200 * int (passing cs)\<bar> \<le> int (length cs)"
  using checkRate_lattice [OF assms] by (simp add: abs_le_iff algebra_simps)

lemma scenario_values:
  "passing (map check_with [''pass'', ''pass'', ''warn'', ''fail'']) = 2"
  "warn (map check_with [''pass'', ''pass'', ''warn'', ''fail'']) = 1"
  "fail (map check_with [''pass'', ''pass'', ''warn'', ''fail'']) = 1"
  "checkRate (map check_with [''pass'', ''pass'', ''warn'', ''fail'']) = 50"
  by code_simp+

text \<open>
  C3 as stated fails: with 23 of 40 checks passing the exact percentage is 57.5, which
  either rounding of the specification takes to 58; the quotient \<open>23 / 40\<close> and its
  product with 100 are rounded to binary64, the product is below 57.5, and the rate is 57.
\<close>

theorem checkRate_below_both_roundings:
  "passing checks_23_of_40 = 23 \<and> length checks_23_of_40 = 40 \<and>
   num_div 23 40 = 2589569785738035 / 2 ^ 52 \<and>
   num_mul (num_div 23 40) 100 = 8092405580431359 / 2 ^ 47 \<and>
   checkRate checks_23_of_40 = 57 \<and> spec_checkRate_half_up checks_23_of_40 = 58 \<and>
   spec_checkRate_half_even checks_23_of_40 = 58"
  by code_simp

text \<open>
  C3, as amended. \<open>passing\<close>, \<open>warn\<close> and \<open>fail\<close> count the checks whose status is
  \<^verbatim>\<open>"pass"\<close>, \<^verbatim>\<open>"warn"\<close> and \<^verbatim>\<open>"fail"\<close>. \<open>checkRate\<close> is 0 for the empty list. For a
  non-empty list (shorter than \<open>2 ^ 32\<close>, the bound on the length of an array) it is an
  integer nearest to the exact percentage \<open>100 * passing / length\<close>: it is that
  percentage rounded half up, except that where the percentage lies exactly halfway
  between two integers it may be the lower of the two. For the statuses pass, pass, warn,
  fail the results are 2, 1, 1 and 50.
\<close>

theorem checkRate_is_a_nearest_percentage:
  "passing cs = count_list (map status cs) ''pass'' \<and>
   warn cs = count_list (map status cs) ''warn'' \<and>
   fail cs = count_list (map status cs) ''fail'' \<and>
   (cs = [] \<longrightarrow> checkRate cs = 0) \<and>
   (cs \<noteq> [] \<longrightarrow> length cs < 2 ^ 32 \<longrightarrow>
      \<bar>2 * checkRate cs * int (length cs) - 200 * int (passing cs)\<bar> \<le> int (length cs) \<and>
      (checkRate cs = spec_checkRate_half_up cs \<or>
       checkRate cs = spec_checkRate_half_up cs - 1 \<and>
       200 * int (passing cs) = (2 * checkRate cs + 1) * int (length cs))) \<and>
   passing (map check_with [''pass'', ''pass'', ''warn'', ''fail'']) = 2 \<and>
   warn (map check_with [''pass'', ''pass'', ''warn'', ''fail'']) = 1 \<and>
   fail (map check_with [''pass'', ''pass'', ''warn'', ''fail'']) = 1 \<and>
   checkRate (map check_with [''pass'', ''pass'', ''warn'', ''fail'']) = 50"
proof -
  have small: "length cs < 2 ^ 43" if "length cs < 2 ^ 32"
    using that by simp
  have "cs = [] \<longrightarrow> checkRate cs = 0"
    by (simp add: checkRate_def)
  moreover have "cs \<noteq> [] \<longrightarrow> length cs < 2 ^ 32 \<longrightarrow>
      \<bar>2 * checkRate cs * int (length cs) - 200 * int (passing cs)\<bar> \<le> int (length cs) \<and>
      (checkRate cs = spec_checkRate_half_up cs \<or>
       checkRate cs = spec_checkRate_half_up cs - 1 \<and>
       200 * int (passing cs) = (2 * checkRate cs + 1) * int (length cs))"
    using checkRate_nearest [of cs] spec_half_up_cases [of cs] small by blast
  ultimately show ?thesis
    using counts_as_count_list [of cs] scenario_values by blast
qed

theorem checkRate_is_a_nearest_percentage_witness:
  "map check_with [''pass'', ''pass'', ''warn'', ''fail''] \<noteq> [] \<and>
   length (map check_with [''pass'', ''pass'', ''warn'', ''fail'']) < 2 ^ 32 \<and>
   spec_checkRate_half_up (map check_with [''pass'', ''pass'', ''warn'', ''fail'']) = 50 \<and>
   checkRate (map check_with [''pass'', ''pass'', ''warn'', ''fail'']) =
     spec_checkRate_half_up (map check_with [''pass'', ''pass'', ''warn'', ''fail''])"
proof -
  let ?S = "map check_with [''pass'', ''pass'', ''warn'', ''fail'']"
  have a: "?S \<noteq> []" "length ?S < 2 ^ 32"
    by simp_all
  have p: "passing ?S = 2" "length ?S = 4"
    by (simp_all add: passing_def check_with_def)
  have s: "spec_checkRate_half_up ?S = 50"
    by code_simp
  from checkRate_is_a_nearest_percentage [of ?S] a
  have "checkRate ?S = spec_checkRate_half_up ?S \<or>
        checkRate ?S = spec_checkRate_half_up ?S - 1 \<and>
        200 * int (passing ?S) = (2 * checkRate ?S + 1) * int (length ?S)"
    by blast
  then have "checkRate ?S = spec_checkRate_half_up ?S"
    unfolding p s by auto
  with a s show ?thesis by simp
qed

lemma checkRate_zero_iff:
  assumes "cs \<noteq> []" and "length cs < 2 ^ 43"
  shows "checkRate cs = 0 \<longleftrightarrow> 200 * passing cs < length cs"
proof
  assume z: "checkRate cs = 0"
  from checkRate_lattice(2) [OF assms] z have le: "200 * passing cs \<le> length cs"
    by simp
  have "200 * passing cs \<noteq> length cs"
  proof
    assume eq: "200 * passing cs = length cs"
    with assms(1) have p: "0 < passing cs"
      by (cases "passing cs") auto
    have "(of_nat (passing cs) :: rat) / of_nat (length cs) =
        of_nat (passing cs) / (200 * of_nat (passing cs))"
      by (simp add: eq [symmetric])
    also have "\<dots> = 1 / 200"
      using p by simp
    finally have "(of_nat (passing cs) :: rat) / of_nat (length cs) = 1 / 200" .
    then have "checkRate cs = Math_round (fl64 (fl64 (1 / 200) * 100))"
      by (simp only: checkRate_unfold [OF assms(1)])
    with z show False
      by (simp add: half_percent)
  qed
  with le show "200 * passing cs < length cs"
    by simp
next
  assume lt: "200 * passing cs < length cs"
  have "(2 * checkRate cs - 1) * int (length cs) \<le> 200 * int (passing cs)"
    by (rule checkRate_lattice(1) [OF assms])
  also have "\<dots> < 1 * int (length cs)"
    using lt by simp
  finally have "2 * checkRate cs - 1 < 1"
    using assms(1) by (simp only: mult_less_cancel_right)
  with checkRate_range [of cs] show "checkRate cs = 0"
    by simp
qed

text \<open>
  C4 as stated fails: one check with status \<^verbatim>\<open>"warn"\<close> is a non-empty list with rate 0.
\<close>

theorem checkRate_zero_without_passing_check:
  "checkRate [check_with ''warn''] = 0 \<and> [check_with ''warn''] \<noteq> []"
  by (simp add: checkRate_no_pass passing_def check_with_def)

text \<open>
  C4, as amended. \<open>checkRate\<close> lies between 0 and 100. It is 0 for the empty list and
  whenever no check passes; for a list shorter than \<open>2 ^ 32\<close> it is 0 exactly when the
  list is empty or fewer than one check in 200 passes.
\<close>

theorem checkRate_range_and_zero:
  "0 \<le> checkRate cs \<and> checkRate cs \<le> 100 \<and>
   (cs = [] \<longrightarrow> checkRate cs = 0) \<and>
   (passing cs = 0 \<longrightarrow> checkRate cs = 0) \<and>
   (length cs < 2 ^ 32 \<longrightarrow> (checkRate cs = 0 \<longleftrightarrow> cs = [] \<or> 200 * passing cs < length cs))"
proof -
  have empty: "cs = [] \<longrightarrow> checkRate cs = 0"
    by (simp add: checkRate_def)
  have none: "passing cs = 0 \<longrightarrow> checkRate cs = 0"
    by (simp add: checkRate_no_pass)
  have "checkRate cs = 0 \<longleftrightarrow> cs = [] \<or> 200 * passing cs < length cs" if "length cs < 2 ^ 32"
  proof (cases "cs = []")
    case True
    then show ?thesis by (simp add: checkRate_def)
  next
    case False
    from that have "length cs < 2 ^ 43" by simp
    from checkRate_zero_iff [OF False this] False show ?thesis by simp
  qed
  with empty none checkRate_range [of cs] show ?thesis by blast
qed

theorem checkRate_range_and_zero_witness:
  "length [check_with ''warn''] < 2 ^ 32 \<and> passing [check_with ''warn''] = 0 \<and>
   checkRate [check_with ''warn''] = 0 \<and>
   checkRate (map check_with [''pass'', ''pass'', ''warn'', ''fail'']) \<noteq> 0"
proof -
  let ?S = "map check_with [''pass'', ''pass'', ''warn'', ''fail'']"
  have p: "passing ?S = 2" "length ?S = 4" "passing [check_with ''warn''] = 0"
    by (simp_all add: passing_def check_with_def)
  have "checkRate [check_with ''warn''] = 0"
    using checkRate_range_and_zero [of "[check_with ''warn'']"] p(3) by simp
  moreover have "checkRate ?S \<noteq> 0"
    using checkRate_range_and_zero [of ?S] unfolding p by simp
  ultimately show ?thesis using p(3) by simp
qed

section \<open>API client\<close>

text \<open>
  C2 as stated fails: for a response with status 500 whose body cannot be read, the
  rejection of \<^verbatim>\<open>response.text()\<close> leaves \<^verbatim>\<open>requestJson\<close> before the \<^verbatim>\<open>throw\<close>, and the
  error is the one of the read, whose message does not start with \<^verbatim>\<open>Request failed (\<close>.
\<close>

theorem non_2xx_with_unreadable_body:
  "\<not> ok (unreadable :: summary_payload response) \<and>
   http_status (unreadable :: summary_payload response) = 500 \<and>
   getSummary None (\<lambda>url. Inr (unreadable :: summary_payload response)) =
     Inl (Error ''terminated'') \<and>
   getFilePreview None (\<lambda>url. Inr (unreadable :: preview_payload response)) ''a.csv'' None =
     Inl (Error ''terminated'') \<and>
   take 16 ''terminated'' \<noteq> ''Request failed (''"
  by (simp add: unreadable_def ok_def getSummary_def getFilePreview_def requestJson_def
      requestJson_settle_def)

text \<open>
  C2, as amended. When the transport's response has a status outside 200 to 299,
  \<^verbatim>\<open>getSummary\<close> and \<^verbatim>\<open>getFilePreview\<close> fail. If the body text can be read and is
  \<open>body\<close>, the error has the message \<^verbatim>\<open>Request failed (<status>): <body>\<close>: the decimal
  status code and the body text as it is. If reading the body text fails, the error is
  the one of that read.
\<close>

theorem non_2xx_fails_with_status_and_body:
  assumes "\<not> ok r"
  shows "(fetch (summary_url env) = Inr r \<longrightarrow>
            getSummary env fetch =
              (case body_text r of
                 Inl e \<Rightarrow> Inl e
               | Inr body \<Rightarrow>
                   Inl (Error (''Request failed ('' @ decimal (http_status r) @ ''): '' @ body)))) \<and>
         (fetch (preview_url env (encodeURIComponent fileName) 20) = Inr r \<longrightarrow>
            getFilePreview env fetch fileName None =
              (case body_text r of
                 Inl e \<Rightarrow> Inl e
               | Inr body \<Rightarrow>
                   Inl (Error (''Request failed ('' @ decimal (http_status r) @ ''): '' @ body)))) \<and>
         (fetch (preview_url env (encodeURIComponent fileName) n) = Inr r \<longrightarrow>
            getFilePreview env fetch fileName (Some n) =
              (case body_text r of
                 Inl e \<Rightarrow> Inl e
               | Inr body \<Rightarrow>
                   Inl (Error (''Request failed ('' @ decimal (http_status r) @ ''): '' @ body))))"
proof -
  have settle: "requestJson_settle (Inr r) =
      (case body_text r of
         Inl e \<Rightarrow> Inl e
       | Inr body \<Rightarrow>
           Inl (Error (''Request failed ('' @ decimal (http_status r) @ ''): '' @ body)))"
    using assms by (simp add: requestJson_settle_def)
  show ?thesis
    by (simp add: getSummary_def getFilePreview_def requestJson_def settle)
qed

theorem non_2xx_fails_with_status_and_body_witness:
  "\<not> ok (not_found :: summary_payload response) \<and>
   getSummary None (\<lambda>url. Inr (not_found :: summary_payload response)) =
     Inl (Error ''Request failed (404): File not found'') \<and>
   getFilePreview None (\<lambda>url. Inr (not_found :: preview_payload response)) ''a b.csv'' None =
     Inl (Error ''Request failed (404): File not found'') \<and>
   getFilePreview None (\<lambda>url. Inr (not_found :: preview_payload response)) ''a b.csv'' (Some 5) =
     Inl (Error ''Request failed (404): File not found'')"
proof -
  have s_nok: "\<not> ok (not_found :: summary_payload response)"
    and p_nok: "\<not> ok (not_found :: preview_payload response)"
    by (simp_all add: not_found_def ok_def)
  have num: "decimal 404 = ''404''"
    by (simp add: decimal.simps [of 404] decimal.simps [of 40] decimal.simps [of 4])
  have "getSummary None (\<lambda>url. Inr (not_found :: summary_payload response)) =
      Inl (Error ''Request failed (404): File not found'')"
    using non_2xx_fails_with_status_and_body
      [where r = "not_found :: summary_payload response" and fetch = "\<lambda>url. Inr not_found"
         and env = None, OF s_nok]
    by (simp add: not_found_def num)
  moreover have
    "getFilePreview None (\<lambda>url. Inr (not_found :: preview_payload response)) ''a b.csv'' None =
       Inl (Error ''Request failed (404): File not found'')"
    "getFilePreview None (\<lambda>url. Inr (not_found :: preview_payload response)) ''a b.csv'' (Some 5) =
       Inl (Error ''Request failed (404): File not found'')"
    using non_2xx_fails_with_status_and_body
      [where r = "not_found :: preview_payload response" and fetch = "\<lambda>url. Inr not_found"
         and env = None and fileName = "''a b.csv''" and n = 5, OF p_nok]
    by (simp_all add: not_found_def num)
  ultimately show ?thesis
    using s_nok by simp
qed

lemma preview_url_example:
  "preview_url None (encodeURIComponent ''a b.csv'') 20 =
     ''http://localhost:8000/api/raw/dashboard/file/a%20b.csv?rows=20''"
  by (simp add: preview_url_def API_BASE_def encodeURIComponent_def unreserved_def percent_def
      decimal.simps [of 20] decimal.simps [of 2])

section \<open>Projections of the component's functions\<close>

lemma run_cleanup_vars [simp]:
  "loading (run_cleanup s) = loading s"
  "error (run_cleanup s) = error s"
  "payload (run_cleanup s) = payload s"
  "selectedFile (run_cleanup s) = selectedFile s"
  "preview (run_cleanup s) = preview s"
  "previewLoading (run_cleanup s) = previewLoading s"
  "calls (run_cleanup s) = calls s"
  "next_id (run_cleanup s) = next_id s"
  "summary_pending (run_cleanup s) = summary_pending s"
  "cleanup (run_cleanup s) = None"
  by (simp_all add: run_cleanup_def split: option.splits)

lemma preview_effect_vars [simp]:
  "loading (preview_effect s) = loading s"
  "error (preview_effect s) = error s"
  "payload (preview_effect s) = payload s"
  "selectedFile (preview_effect s) = selectedFile s"
  "summary_pending (preview_effect s) = summary_pending s"
  by (simp_all add: preview_effect_def Let_def)

lemma preview_effect_empty:
  assumes "selectedFile s = []"
  shows "preview (preview_effect s) = None"
    and "previewLoading (preview_effect s) = previewLoading s"
    and "calls (preview_effect s) = calls s"
    and "next_id (preview_effect s) = next_id s"
    and "cleanup (preview_effect s) = None"
  using assms by (simp_all add: preview_effect_def Let_def)

lemma commit_vars [simp]:
  "loading (commit prev s) = loading s"
  "error (commit prev s) = error s"
  "payload (commit prev s) = payload s"
  "selectedFile (commit prev s) = selectedFile s"
  "summary_pending (commit prev s) = summary_pending s"
  by (simp_all add: commit_def)

lemma refresh_resume_loading [simp]: "\<not> loading (refresh_resume seen settled s)"
  by (simp add: refresh_resume_def Let_def split: sum.splits option.splits list.splits)

lemma refresh_resume_frame [simp]:
  "preview (refresh_resume seen settled s) = preview s"
  "previewLoading (refresh_resume seen settled s) = previewLoading s"
  "calls (refresh_resume seen settled s) = calls s"
  "next_id (refresh_resume seen settled s) = next_id s"
  "cleanup (refresh_resume seen settled s) = cleanup s"
  "preview_pending (refresh_resume seen settled s) = preview_pending s"
  "summary_pending (refresh_resume seen settled s) = summary_pending s"
  by (simp_all add: refresh_resume_def Let_def split: sum.splits option.splits list.splits)

lemma refresh_resume_selectedFile:
  "selectedFile (refresh_resume seen (Inr data) s) =
     (case files data of
        Some (f # _) \<Rightarrow> if seen = [] then file_name f else selectedFile s
      | _ \<Rightarrow> selectedFile s)"
  by (simp add: refresh_resume_def Let_def split: option.splits list.splits)

lemma refresh_resume_failure:
  "error (refresh_resume seen (Inl err) s) =
     (if message err = [] then ''Failed to load dashboard'' else message err)"
  "payload (refresh_resume seen (Inl err) s) = payload s"
  "selectedFile (refresh_resume seen (Inl err) s) = selectedFile s"
  by (simp_all add: refresh_resume_def)

lemma preview_resume_frame [simp]:
  "selectedFile (preview_resume flag settled s) = selectedFile s"
  "calls (preview_resume flag settled s) = calls s"
  "loading (preview_resume flag settled s) = loading s"
  "error (preview_resume flag settled s) = error s"
  "payload (preview_resume flag settled s) = payload s"
  "next_id (preview_resume flag settled s) = next_id s"
  "cleanup (preview_resume flag settled s) = cleanup s"
  "preview_pending (preview_resume flag settled s) = preview_pending s"
  "summary_pending (preview_resume flag settled s) = summary_pending s"
  by (simp_all add: preview_resume_def Let_def split: sum.splits)

lemma run_Nil [simp]: "run s [] = s"
  by (simp add: run_def)

lemma run_Cons [simp]: "run s (e # evs) = run (step s e) evs"
  by (simp add: run_def)

lemmas eval_defs =
  start_def initial_def refresh_def preview_effect_def run_cleanup_def commit_def
  refresh_resume_def preview_resume_def requestJson_settle_def ok_def files_of_def
  ok_summary_def ok_preview_def summary_of_def file_named_def not_found_def Let_def

section \<open>The refresh flow\<close>

lemma loading_tracks_refresh_cong:
  assumes "summary_pending s' = summary_pending s" and "loading s' = loading s"
  shows "loading_tracks_refresh s' = loading_tracks_refresh s"
  by (simp add: loading_tracks_refresh_def refresh_in_flight_def assms)

lemma loading_tracks_refresh_start: "loading_tracks_refresh start"
  by (auto simp: loading_tracks_refresh_def refresh_in_flight_def eval_defs)

lemma loading_tracks_refresh_step:
  assumes "loading_tracks_refresh s"
  shows "loading_tracks_refresh (step s e)"
proof (cases e)
  case Click_refresh
  show ?thesis
  proof (cases "loading s")
    case True
    with assms Click_refresh show ?thesis by simp
  next
    case False
    with assms have "summary_pending s = Map.empty"
      by (auto simp: loading_tracks_refresh_def refresh_in_flight_def fun_eq_iff)
    then have "loading_tracks_refresh (refresh s)"
      by (auto simp: loading_tracks_refresh_def refresh_in_flight_def refresh_def
          split: if_splits)
    with False Click_refresh show ?thesis by simp
  qed
next
  case (Click_row i)
  have "loading_tracks_refresh
      (commit (selectedFile s) (s\<lparr>selectedFile := file_name (files_of s ! i)\<rparr>)) =
      loading_tracks_refresh s"
    by (rule loading_tracks_refresh_cong) simp_all
  with assms Click_row show ?thesis by simp
next
  case (Summary_settled rid fetched)
  show ?thesis
  proof (cases "summary_pending s rid")
    case None
    with assms Summary_settled show ?thesis by simp
  next
    case (Some seen)
    let ?s0 = "s\<lparr>summary_pending := (summary_pending s)(rid := None)\<rparr>"
    let ?s1 = "refresh_resume seen (requestJson_settle fetched) ?s0"
    from assms Some have only: "rid' = rid" if "summary_pending s rid' = Some seen'" for rid' seen'
      using that unfolding loading_tracks_refresh_def by blast
    have "summary_pending ?s0 x = None" for x
    proof (cases "summary_pending s x")
      case None
      then show ?thesis by simp
    next
      case (Some seen')
      from only [OF this] show ?thesis by simp
    qed
    then have "summary_pending ?s0 = Map.empty"
      by (simp only: fun_eq_iff) simp
    then have "loading_tracks_refresh ?s1"
      by (simp add: loading_tracks_refresh_def refresh_in_flight_def)
    moreover have "loading_tracks_refresh (commit (selectedFile s) ?s1) = loading_tracks_refresh ?s1"
      by (rule loading_tracks_refresh_cong) simp_all
    ultimately show ?thesis
      using Some Summary_settled by simp
  qed
next
  case (Preview_settled pid fetched)
  show ?thesis
  proof (cases "preview_pending s pid")
    case None
    with assms Preview_settled show ?thesis by simp
  next
    case (Some t)
    have "loading_tracks_refresh (preview_resume (cancelled t) (requestJson_settle fetched)
        (s\<lparr>preview_pending := (preview_pending s)(pid := None)\<rparr>)) = loading_tracks_refresh s"
      by (rule loading_tracks_refresh_cong) simp_all
    with assms Some Preview_settled show ?thesis by simp
  qed
qed

lemma loading_tracks_refresh_run:
  "loading_tracks_refresh s \<Longrightarrow> loading_tracks_refresh (run s evs)"
  by (induction evs arbitrary: s) (simp_all add: loading_tracks_refresh_step)

lemma loading_while_in_flight: "loading (run start evs) \<longleftrightarrow> refresh_in_flight (run start evs)"
  using loading_tracks_refresh_run [OF loading_tracks_refresh_start, of evs]
  by (simp add: loading_tracks_refresh_def)

text \<open>
  C8. \<^verbatim>\<open>refresh\<close> sets \<^verbatim>\<open>loading\<close> and clears the error message on entry (a click on the
  enabled button invokes it), and the settling of its request leaves \<^verbatim>\<open>loading\<close> false,
  whether the request succeeded or failed. In every reachable state \<^verbatim>\<open>loading\<close> is set
  exactly while a \<^verbatim>\<open>refresh\<close> is in flight.
\<close>

theorem refresh_sets_and_clears_loading:
  "loading (refresh s) \<and> error (refresh s) = [] \<and>
   (\<not> loading s \<longrightarrow> step s Click_refresh = refresh s) \<and>
   (summary_pending s rid = Some seen \<longrightarrow> \<not> loading (step s (Summary_settled rid fetched))) \<and>
   (loading (run start evs) \<longleftrightarrow> refresh_in_flight (run start evs))"
proof -
  have entry: "loading (refresh s) \<and> error (refresh s) = []"
    by (simp add: refresh_def)
  have click: "step s Click_refresh = refresh s" if "\<not> loading s"
    using that by simp
  have exit: "\<not> loading (step s (Summary_settled rid fetched))"
    if "summary_pending s rid = Some seen"
    using that by simp
  from entry click exit loading_while_in_flight [of evs] show ?thesis
    by blast
qed

theorem refresh_sets_and_clears_loading_witness:
  "\<not> loading initial \<and> loading (step initial Click_refresh) \<and>
   loading start \<and> \<not> loading (step start (Summary_settled 0 (Inr not_found))) \<and>
   \<not> loading (step start (Summary_settled 0 (ok_summary [''a.csv''])))"
proof -
  have p: "summary_pending start 0 = Some []"
    by (simp add: eval_defs)
  have i: "\<not> loading initial"
    by (simp add: initial_def)
  have "refresh_in_flight (run start [])"
    using p by (auto simp: refresh_in_flight_def)
  then have "loading start"
    using refresh_sets_and_clears_loading [of initial 0 "[]" "Inl (Error [])" "[]"] by simp
  moreover have "loading (step initial Click_refresh)"
    using refresh_sets_and_clears_loading [of initial 0 "[]" "Inl (Error [])" "[]"] i by metis
  moreover have "\<not> loading (step start (Summary_settled 0 f))" for f
    using refresh_sets_and_clears_loading [of start 0 "[]" f "[]"] p by blast
  ultimately show ?thesis using i by blast
qed

text \<open>
  C7. When the request of a pending \<^verbatim>\<open>refresh\<close> fails with error \<open>err\<close>, the stored error
  message is the message of \<open>err\<close>, or \<^verbatim>\<open>Failed to load dashboard\<close> when that message is
  empty, and the stored summary payload (and the selection) is the one from before.
\<close>

theorem failed_refresh_keeps_payload:
  assumes "summary_pending s rid = Some seen"
    and "requestJson_settle fetched = Inl err"
  shows "error (step s (Summary_settled rid fetched)) =
           (if message err = [] then ''Failed to load dashboard'' else message err) \<and>
         payload (step s (Summary_settled rid fetched)) = payload s \<and>
         selectedFile (step s (Summary_settled rid fetched)) = selectedFile s"
  using assms by (simp add: refresh_resume_failure)

theorem failed_refresh_keeps_payload_witness:
  "payload (run start [Summary_settled 0 (ok_summary [''a.csv'']), Click_refresh]) =
     Some (summary_of [''a.csv'']) \<and>
   payload (run start [Summary_settled 0 (ok_summary [''a.csv'']), Click_refresh,
      Summary_settled 2 (Inr not_found)]) = Some (summary_of [''a.csv'']) \<and>
   error (run start [Summary_settled 0 (ok_summary [''a.csv'']), Click_refresh,
      Summary_settled 2 (Inr not_found)]) = ''Request failed (404): File not found'' \<and>
   error (step start (Summary_settled 0 (Inl (Error [])))) = ''Failed to load dashboard''"
proof -
  let ?s = "run start [Summary_settled 0 (ok_summary [''a.csv'']), Click_refresh]"
  have p: "summary_pending ?s 2 = Some ''a.csv''"
    by (simp add: eval_defs)
  have f: "requestJson_settle (Inr not_found :: js_error + summary_payload response) =
      Inl (Error ''Request failed (404): File not found'')"
    by (simp add: requestJson_settle_def not_found_def ok_def decimal.simps [of 404]
        decimal.simps [of 40] decimal.simps [of 4])
  have p0: "summary_pending start 0 = Some []"
    by (simp add: eval_defs)
  have f0: "requestJson_settle (Inl (Error []) :: js_error + summary_payload response) = Inl (Error [])"
    by (simp add: requestJson_settle_def)
  have "payload ?s = Some (summary_of [''a.csv''])"
    by (simp add: eval_defs)
  with failed_refresh_keeps_payload [OF p f] failed_refresh_keeps_payload [OF p0 f0]
  show ?thesis by simp
qed

lemma files_of_cong: "payload s' = payload s \<Longrightarrow> files_of s' = files_of s"
  by (simp add: files_of_def)

lemma single_refresh_cong:
  assumes "payload s' = payload s" and "selectedFile s' = selectedFile s"
    and "summary_pending s' = summary_pending s" and "loading s' = loading s"
  shows "single_refresh s' = single_refresh s"
  by (simp add: single_refresh_def files_of_cong [OF assms(1)] assms)

lemma single_refresh_commit: "single_refresh (commit prev s) = single_refresh s"
  by (rule single_refresh_cong) simp_all

lemma single_refresh_start: "single_refresh start"
  by (simp add: single_refresh_def eval_defs)

lemma single_refresh_step:
  assumes "single_refresh s" and "named_event e"
  shows "single_refresh (step s e)"
proof (cases e)
  case Click_refresh
  show ?thesis
  proof (cases "loading s")
    case True
    with assms Click_refresh show ?thesis by simp
  next
    case False
    with assms(1) have none: "summary_pending s = Map.empty"
      by (auto simp: single_refresh_def fun_eq_iff)
    have "single_refresh (refresh s)"
      using assms(1) none
      by (auto simp: single_refresh_def refresh_def files_of_def split: if_splits)
    with False Click_refresh show ?thesis by simp
  qed
next
  case (Click_row i)
  show ?thesis
  proof (cases "i < length (files_of s)")
    case False
    with assms Click_row show ?thesis by simp
  next
    case True
    let ?s = "s\<lparr>selectedFile := file_name (files_of s ! i)\<rparr>"
    from assms(1) True have new: "file_name (files_of s ! i) \<noteq> []"
      by (simp add: single_refresh_def list_all_length)
    from assms(1) True have old: "selectedFile s \<noteq> []"
      by (auto simp: single_refresh_def)
    have "single_refresh ?s"
      using assms(1) new old by (auto simp: single_refresh_def files_of_def)
    with True Click_row show ?thesis
      by (simp add: single_refresh_commit)
  qed
next
  case (Summary_settled rid fetched)
  show ?thesis
  proof (cases "summary_pending s rid")
    case None
    with assms Summary_settled show ?thesis by simp
  next
    case (Some seen)
    let ?s0 = "s\<lparr>summary_pending := (summary_pending s)(rid := None)\<rparr>"
    from assms(1) Some have seen: "seen = [] \<longleftrightarrow> selectedFile s = []"
      and only: "\<And>rid' seen'. summary_pending s rid' = Some seen' \<Longrightarrow> rid' = rid"
      by (auto simp: single_refresh_def)
    have none: "summary_pending ?s0 = Map.empty"
      using only by (auto simp: fun_eq_iff) (metis not_None_eq)
    have "single_refresh (refresh_resume seen (requestJson_settle fetched) ?s0)"
    proof (cases "requestJson_settle fetched")
      case (Inl err)
      then show ?thesis
        using assms(1) none
        by (auto simp: single_refresh_def refresh_resume_def files_of_def)
    next
      case (Inr data)
      with assms(2) Summary_settled have nf: "named_files data"
        by simp
      show ?thesis
        using assms(1) none nf seen Inr
        by (auto simp: single_refresh_def refresh_resume_def files_of_def named_files_def
            Let_def split: option.splits list.splits)
    qed
    with Some Summary_settled show ?thesis
      by (simp add: single_refresh_commit)
  qed
next
  case (Preview_settled pid fetched)
  show ?thesis
  proof (cases "preview_pending s pid")
    case None
    with assms Preview_settled show ?thesis by simp
  next
    case (Some t)
    have "single_refresh (preview_resume (cancelled t) (requestJson_settle fetched)
        (s\<lparr>preview_pending := (preview_pending s)(pid := None)\<rparr>)) = single_refresh s"
      by (rule single_refresh_cong) simp_all
    with assms Some Preview_settled show ?thesis by simp
  qed
qed

lemma single_refresh_run:
  "single_refresh s \<Longrightarrow> list_all named_event evs \<Longrightarrow> single_refresh (run s evs)"
  by (induction evs arbitrary: s) (simp_all add: single_refresh_step)

lemma seen_is_current:
  assumes "list_all named_event evs" and "s = run start evs"
    and "summary_pending s rid = Some seen"
  shows "seen = [] \<longleftrightarrow> selectedFile s = []"
proof -
  have "single_refresh s"
    unfolding assms(2) by (rule single_refresh_run [OF single_refresh_start assms(1)])
  with assms(3) show ?thesis
    by (auto simp: single_refresh_def)
qed

text \<open>
  C5. The selection is to be left unchanged when one exists at completion time. The code
  does otherwise at this input: the first payload lists a file with the empty name first,
  so the selection stays empty; the refresh button is clicked, and while that request is
  in flight the row of \<^verbatim>\<open>b.csv\<close> is clicked; when the request succeeds, the guard of line 50
  reads the \<^verbatim>\<open>selectedFile\<close> of the closure of \<^verbatim>\<open>refresh\<close>, which is still empty, and the
  selection \<^verbatim>\<open>b.csv\<close> is replaced by the first file of the new payload.
\<close>

theorem default_selection_overrides_later_selection:
  "selectedFile (run start [Summary_settled 0 (ok_summary [[], ''b.csv'']), Click_refresh,
      Click_row 1]) = ''b.csv'' \<and>
   selectedFile (run start [Summary_settled 0 (ok_summary [[], ''b.csv'']), Click_refresh,
      Click_row 1, Summary_settled 1 (ok_summary [''a.csv''])]) = ''a.csv''"
  by (simp add: eval_defs)

text \<open>
  What the guard of line 50 tests: the selection of the render that invoked \<^verbatim>\<open>refresh\<close>.
  In a run in which no file received has the empty name that selection is empty exactly
  when the selection at completion is, and the default selection is then applied as
  intended.
\<close>

theorem default_selection_uses_selection_seen_by_refresh:
  "summary_pending (refresh s) (next_id s) = Some (selectedFile s) \<and>
   (summary_pending s rid = Some seen \<longrightarrow> requestJson_settle fetched = Inr data \<longrightarrow>
      payload (step s (Summary_settled rid fetched)) = Some data \<and>
      selectedFile (step s (Summary_settled rid fetched)) =
        (case files data of
           Some (f # _) \<Rightarrow> if seen = [] then file_name f else selectedFile s
         | _ \<Rightarrow> selectedFile s) \<and>
      (list_all named_event evs \<longrightarrow> s = run start evs \<longrightarrow>
         selectedFile (step s (Summary_settled rid fetched)) =
           (case files data of
              Some (f # _) \<Rightarrow> if selectedFile s = [] then file_name f else selectedFile s
            | _ \<Rightarrow> selectedFile s)))"
proof -
  have reg: "summary_pending (refresh s) (next_id s) = Some (selectedFile s)"
    by (simp add: refresh_def)
  have fin: "payload (step s (Summary_settled rid fetched)) = Some data \<and>
      selectedFile (step s (Summary_settled rid fetched)) =
        (case files data of
           Some (f # _) \<Rightarrow> if seen = [] then file_name f else selectedFile s
         | _ \<Rightarrow> selectedFile s)"
    if "summary_pending s rid = Some seen" and "requestJson_settle fetched = Inr data"
    using that
    by (simp add: refresh_resume_selectedFile)
      (simp add: refresh_resume_def Let_def split: option.splits list.splits)
  have cur: "selectedFile (step s (Summary_settled rid fetched)) =
           (case files data of
              Some (f # _) \<Rightarrow> if selectedFile s = [] then file_name f else selectedFile s
            | _ \<Rightarrow> selectedFile s)"
    if "summary_pending s rid = Some seen" and "requestJson_settle fetched = Inr data"
      and "list_all named_event evs" and "s = run start evs"
  proof -
    have sel: "selectedFile (step s (Summary_settled rid fetched)) =
        (case files data of
           Some (f # _) \<Rightarrow> if seen = [] then file_name f else selectedFile s
         | _ \<Rightarrow> selectedFile s)"
      using fin [OF that(1,2)] by blast
    show ?thesis
      unfolding sel using seen_is_current [OF that(3,4,1)]
      by (auto split: option.splits list.splits)
  qed
  from reg fin cur show ?thesis by blast
qed

theorem default_selection_uses_selection_seen_by_refresh_witness:
  "selectedFile (step start (Summary_settled 0 (ok_summary [''a.csv'', ''b.csv'']))) = ''a.csv'' \<and>
   selectedFile (run start [Summary_settled 0 (ok_summary [''a.csv'', ''b.csv'']), Click_row 1,
      Click_refresh, Summary_settled 3 (ok_summary [''a.csv'', ''b.csv''])]) = ''b.csv''"
proof -
  let ?evs = "[Summary_settled 0 (ok_summary [''a.csv'', ''b.csv'']), Click_row 1, Click_refresh]"
  let ?s = "run start ?evs"
  let ?data = "summary_of [''a.csv'', ''b.csv'']"
  have p0: "summary_pending start 0 = Some []"
    by (simp add: eval_defs)
  have p: "summary_pending ?s 3 = Some ''b.csv''"
    by (simp add: eval_defs)
  have f: "requestJson_settle (ok_summary [''a.csv'', ''b.csv'']) = Inr ?data"
    by (simp add: requestJson_settle_def ok_summary_def ok_def)
  have n: "list_all named_event ?evs" "list_all named_event []"
    by (simp_all add: f named_files_def summary_of_def file_named_def)
  have s: "selectedFile ?s = ''b.csv''" "selectedFile start = []"
    by (simp_all add: eval_defs)
  have r0: "start = run start []"
    by simp
  have "selectedFile (step start (Summary_settled 0 (ok_summary [''a.csv'', ''b.csv'']))) =
      (case files ?data of
         Some (f # _) \<Rightarrow> if selectedFile start = [] then file_name f else selectedFile start
       | _ \<Rightarrow> selectedFile start)"
    using default_selection_uses_selection_seen_by_refresh
      [of start 0 "[]" "ok_summary [''a.csv'', ''b.csv'']" ?data "[]"] p0 f n(2) r0
    by blast
  moreover have "selectedFile (step ?s (Summary_settled 3 (ok_summary [''a.csv'', ''b.csv'']))) =
      (case files ?data of
         Some (f # _) \<Rightarrow> if selectedFile ?s = [] then file_name f else selectedFile ?s
       | _ \<Rightarrow> selectedFile ?s)"
    using default_selection_uses_selection_seen_by_refresh
      [of ?s 3 "''b.csv''" "ok_summary [''a.csv'', ''b.csv'']" ?data ?evs] p f n(1)
    by blast
  ultimately show ?thesis
    using s by (simp add: summary_of_def file_named_def)
qed

section \<open>The preview flow\<close>

lemma vars_preview_effect_empty:
  "selectedFile s = [] \<Longrightarrow> vars (preview_effect s) = (vars s)\<lparr>preview := None\<rparr>"
  by (simp add: vars_def preview_effect_empty)

lemma commit_becomes_empty:
  assumes "prev \<noteq> []" and "selectedFile s = []"
  shows "preview (commit prev s) = None" and "calls (commit prev s) = calls s"
    and "previewLoading (commit prev s) = previewLoading s"
  using assms by (simp_all add: commit_def preview_effect_empty)

lemma step_becomes_empty:
  assumes "selectedFile s \<noteq> []" and "selectedFile (step s e) = []"
  shows "preview (step s e) = None \<and> calls (step s e) = calls s \<and>
         previewLoading (step s e) = previewLoading s"
proof (cases e)
  case Click_refresh
  with assms show ?thesis by (simp add: refresh_def split: if_splits)
next
  case (Click_row i)
  with assms have "i < length (files_of s)"
    by (simp split: if_splits)
  with assms Click_row show ?thesis
    by (simp add: commit_becomes_empty)
next
  case (Summary_settled rid fetched)
  show ?thesis
  proof (cases "summary_pending s rid")
    case None
    with assms Summary_settled show ?thesis by simp
  next
    case (Some seen)
    with assms Summary_settled show ?thesis
      by (simp add: commit_becomes_empty)
  qed
next
  case (Preview_settled pid fetched)
  with assms show ?thesis by (simp split: option.splits)
qed

lemma click_row_becomes_empty:
  assumes "selectedFile s \<noteq> []" and "selectedFile (step s (Click_row i)) = []"
  shows "vars (step s (Click_row i)) = (vars s)\<lparr>selectedFile := [], preview := None\<rparr>"
  using assms
  by (simp add: vars_def commit_def preview_effect_empty split: if_splits)

text \<open>
  C9. When the preview effect runs with an empty selection it sets the preview to empty,
  calls the API client not at all and leaves every other state variable as it is. When an
  event makes a non-empty selection empty, the preview is empty afterwards, no call to the
  API client has been made and \<^verbatim>\<open>previewLoading\<close> is what it was; if the event is a click
  on a row, the selection and the preview are the only state variables that change.
\<close>

theorem empty_selection_clears_preview_only:
  "(selectedFile s = [] \<longrightarrow>
      vars (preview_effect s) = (vars s)\<lparr>preview := None\<rparr> \<and>
      calls (preview_effect s) = calls s) \<and>
   (selectedFile s \<noteq> [] \<longrightarrow> selectedFile (step s e) = [] \<longrightarrow>
      preview (step s e) = None \<and> calls (step s e) = calls s \<and>
      previewLoading (step s e) = previewLoading s \<and>
      (\<forall>i. e = Click_row i \<longrightarrow>
         vars (step s e) = (vars s)\<lparr>selectedFile := [], preview := None\<rparr>))"
  using vars_preview_effect_empty [of s] preview_effect_empty(3) [of s]
    step_becomes_empty [of s e] click_row_becomes_empty [of s]
  by blast

theorem empty_selection_clears_preview_only_witness:
  "selectedFile (run start [Summary_settled 0 (ok_summary [''a.csv'', []]),
      Preview_settled 1 (ok_preview rows_a)]) = ''a.csv'' \<and>
   preview (run start [Summary_settled 0 (ok_summary [''a.csv'', []]),
      Preview_settled 1 (ok_preview rows_a)]) = Some (Preview_rows rows_a) \<and>
   selectedFile (run start [Summary_settled 0 (ok_summary [''a.csv'', []]),
      Preview_settled 1 (ok_preview rows_a), Click_row 1]) = [] \<and>
   preview (run start [Summary_settled 0 (ok_summary [''a.csv'', []]),
      Preview_settled 1 (ok_preview rows_a), Click_row 1]) = None \<and>
   calls (run start [Summary_settled 0 (ok_summary [''a.csv'', []]),
      Preview_settled 1 (ok_preview rows_a), Click_row 1]) = [GetSummary, GetFilePreview ''a.csv'' 20] \<and>
   preview (preview_effect initial) = None \<and> calls (preview_effect initial) = []"
proof -
  let ?s = "run start [Summary_settled 0 (ok_summary [''a.csv'', []]),
      Preview_settled 1 (ok_preview rows_a)]"
  have a: "selectedFile ?s = ''a.csv''" "preview ?s = Some (Preview_rows rows_a)"
    "calls ?s = [GetSummary, GetFilePreview ''a.csv'' 20]"
    by (simp_all add: eval_defs)
  have b: "selectedFile (step ?s (Click_row 1)) = []"
    by (simp add: eval_defs)
  have i: "selectedFile initial = []" "calls initial = []" "preview initial = None"
    by (simp_all add: initial_def)
  have "vars (preview_effect initial) = (vars initial)\<lparr>preview := None\<rparr>"
    "calls (preview_effect initial) = calls initial"
    using empty_selection_clears_preview_only [of initial] i by blast+
  then have "preview (preview_effect initial) = None" "calls (preview_effect initial) = []"
    using i by (simp_all add: vars_def)
  moreover have "preview (step ?s (Click_row 1)) = None" "calls (step ?s (Click_row 1)) = calls ?s"
    using empty_selection_clears_preview_only [of ?s "Click_row 1"] a b by simp_all
  ultimately show ?thesis using a b by simp
qed

section \<open>Invariant of the preview flow\<close>

lemma consistent_tracked: "consistent s \<Longrightarrow> tracked s"
  by (simp add: consistent_def)

lemma tracked_cong:
  assumes "preview_pending s' = preview_pending s" and "next_id s' = next_id s"
    and "cleanup s' = cleanup s" and "previewLoading s' = previewLoading s"
  shows "tracked s' = tracked s"
  by (simp add: tracked_def assms)

lemma consistent_cong:
  assumes "preview_pending s' = preview_pending s" and "next_id s' = next_id s"
    and "cleanup s' = cleanup s" and "previewLoading s' = previewLoading s"
    and "selectedFile s' = selectedFile s"
  shows "consistent s' = consistent s"
  by (simp add: consistent_def tracked_cong [OF assms(1-4)] assms)

lemma run_cleanup_pending:
  assumes "tracked s" and "preview_pending s pid = Some t"
  shows "\<exists>t'. preview_pending (run_cleanup s) pid = Some t' \<and> cancelled t' \<and>
              asked_file t' = asked_file t"
proof (cases "cancelled t")
  case True
  with assms(2) show ?thesis
    by (auto simp: run_cleanup_def split: option.splits)
next
  case False
  with assms have "cleanup s = Some pid"
    by (auto simp: tracked_def)
  with assms(2) show ?thesis
    by (simp add: run_cleanup_def)
qed

lemma run_cleanup_dom:
  "preview_pending (run_cleanup s) pid = None \<longleftrightarrow> preview_pending s pid = None"
  by (auto simp: run_cleanup_def split: option.splits if_splits)

lemma run_cleanup_flagged:
  assumes "tracked s" and "preview_pending (run_cleanup s) pid = Some t"
  shows "cancelled t"
proof -
  from assms(2) obtain t0 where "preview_pending s pid = Some t0"
    using run_cleanup_dom [of s pid] by (cases "preview_pending s pid") auto
  from run_cleanup_pending [OF assms(1) this] assms(2) show ?thesis by auto
qed

lemma preview_effect_consistent:
  assumes "tracked s"
  shows "consistent (preview_effect s)"
proof -
  let ?c = "run_cleanup s"
  have fl: "\<And>pid t. preview_pending ?c pid = Some t \<Longrightarrow> cancelled t"
    using run_cleanup_flagged [OF assms] by blast
  have lt: "\<And>pid t. preview_pending ?c pid = Some t \<Longrightarrow> pid < next_id s"
  proof -
    fix pid t assume "preview_pending ?c pid = Some t"
    then have "preview_pending s pid \<noteq> None"
      using run_cleanup_dom [of s pid] by auto
    with assms show "pid < next_id s" by (auto simp: tracked_def)
  qed
  show ?thesis
  proof (cases "selectedFile s = []")
    case True
    then have "preview_effect s = ?c\<lparr>preview := None\<rparr>"
      by (simp add: preview_effect_def Let_def)
    then show ?thesis
      using fl lt by (auto simp: consistent_def tracked_def)
  next
    case False
    then have eq: "preview_effect s =
        ?c\<lparr>previewLoading := True,
           preview_pending :=
             (preview_pending ?c)(next_id s \<mapsto> \<lparr>asked_file = selectedFile s, cancelled = False\<rparr>),
           cleanup := Some (next_id s), next_id := Suc (next_id s),
           calls := calls s @ [GetFilePreview (selectedFile s) 20]\<rparr>"
      by (simp add: preview_effect_def Let_def)
    show ?thesis
      unfolding eq consistent_def tracked_def
      using fl lt False by (auto simp: less_Suc_eq less_imp_le)
  qed
qed

lemma preview_effect_cancels:
  assumes "tracked s" and "preview_pending s pid = Some t"
  shows "\<exists>t'. preview_pending (preview_effect s) pid = Some t' \<and> cancelled t'"
proof -
  from run_cleanup_pending [OF assms] obtain t'
    where t': "preview_pending (run_cleanup s) pid = Some t'" "cancelled t'" by blast
  from assms have "pid \<noteq> next_id s" by (auto simp: tracked_def)
  with t' show ?thesis
    by (simp add: preview_effect_def Let_def)
qed

lemma commit_consistent:
  assumes "tracked s" and "selectedFile s = prev \<Longrightarrow> consistent s"
  shows "consistent (commit prev s)"
  using assms by (simp add: commit_def preview_effect_consistent)

lemma consistent_step:
  assumes "consistent s"
  shows "consistent (step s e)"
proof (cases e)
  case Click_refresh
  have "consistent (refresh s)"
    using assms by (auto simp: consistent_def tracked_def refresh_def less_Suc_eq)
  with assms Click_refresh show ?thesis by simp
next
  case (Click_row i)
  let ?s = "s\<lparr>selectedFile := file_name (files_of s ! i)\<rparr>"
  have "tracked ?s"
    using consistent_tracked [OF assms] by (simp add: tracked_cong [of ?s s])
  moreover have "selectedFile ?s = selectedFile s \<Longrightarrow> consistent ?s"
    using assms by (simp add: consistent_cong [of ?s s])
  ultimately have "consistent (commit (selectedFile s) ?s)"
    by (rule commit_consistent)
  with assms Click_row show ?thesis by simp
next
  case (Summary_settled rid fetched)
  show ?thesis
  proof (cases "summary_pending s rid")
    case None
    with assms Summary_settled show ?thesis by simp
  next
    case (Some seen)
    let ?s = "refresh_resume seen (requestJson_settle fetched)
                (s\<lparr>summary_pending := (summary_pending s)(rid := None)\<rparr>)"
    have "tracked ?s"
      using consistent_tracked [OF assms] by (simp add: tracked_cong [of ?s s])
    moreover have "selectedFile ?s = selectedFile s \<Longrightarrow> consistent ?s"
      using assms by (simp add: consistent_cong [of ?s s])
    ultimately have "consistent (commit (selectedFile s) ?s)"
      by (rule commit_consistent)
    with Some Summary_settled show ?thesis by simp
  qed
next
  case (Preview_settled pid fetched)
  show ?thesis
  proof (cases "preview_pending s pid")
    case None
    with assms Preview_settled show ?thesis by simp
  next
    case (Some t)
    let ?s = "s\<lparr>preview_pending := (preview_pending s)(pid := None)\<rparr>"
    have "consistent (preview_resume (cancelled t) (requestJson_settle fetched) ?s)"
    proof (cases "cancelled t")
      case True
      then have "preview_resume (cancelled t) (requestJson_settle fetched) ?s = ?s"
        by (simp add: preview_resume_def split: sum.splits)
      moreover have "consistent ?s"
        using assms unfolding consistent_def tracked_def by auto
      ultimately show ?thesis by simp
    next
      case False
      with assms Some have c: "cleanup s = Some pid"
        by (auto simp: consistent_def tracked_def)
      have others: "cancelled u" if "preview_pending s p = Some u" and "p \<noteq> pid" for p u
      proof (rule ccontr)
        assume "\<not> cancelled u"
        with assms that(1) have "cleanup s = Some p"
          by (auto simp: consistent_def tracked_def)
        with c that(2) show False by simp
      qed
      show ?thesis
        using assms c others False
        unfolding consistent_def tracked_def
        by (auto simp: preview_resume_def Let_def split: sum.splits)
    qed
    with Some Preview_settled show ?thesis by simp
  qed
qed

lemma consistent_start: "consistent start"
  unfolding start_def
  by (rule preview_effect_consistent) (simp add: tracked_def refresh_def initial_def)

lemma consistent_run: "consistent s \<Longrightarrow> consistent (run s evs)"
  by (induction evs arbitrary: s) (simp_all add: consistent_step)

section \<open>Superseded preview requests\<close>

lemma step_cancels:
  assumes "consistent s" and "preview_pending s pid = Some t"
    and "selectedFile (step s e) \<noteq> selectedFile s"
  shows "\<exists>t'. preview_pending (step s e) pid = Some t' \<and> cancelled t'"
proof (cases e)
  case Click_refresh
  with assms(3) show ?thesis by (simp add: refresh_def split: if_splits)
next
  case (Click_row i)
  let ?s = "s\<lparr>selectedFile := file_name (files_of s ! i)\<rparr>"
  from assms(3) Click_row have i: "i < length (files_of s)" and ne: "selectedFile ?s \<noteq> selectedFile s"
    by (auto split: if_splits)
  have "tracked ?s"
    using consistent_tracked [OF assms(1)] by (simp add: tracked_cong [of ?s s])
  moreover have "preview_pending ?s pid = Some t"
    using assms(2) by simp
  ultimately have "\<exists>t'. preview_pending (preview_effect ?s) pid = Some t' \<and> cancelled t'"
    by (rule preview_effect_cancels)
  with Click_row i ne show ?thesis by (simp add: commit_def)
next
  case (Summary_settled rid fetched)
  show ?thesis
  proof (cases "summary_pending s rid")
    case None
    with assms(3) Summary_settled show ?thesis by simp
  next
    case (Some seen)
    let ?s = "refresh_resume seen (requestJson_settle fetched)
                (s\<lparr>summary_pending := (summary_pending s)(rid := None)\<rparr>)"
    from assms(3) Summary_settled Some have ne: "selectedFile ?s \<noteq> selectedFile s"
      by simp
    have "tracked ?s"
      using consistent_tracked [OF assms(1)] by (simp add: tracked_cong [of ?s s])
    moreover have "preview_pending ?s pid = Some t"
      using assms(2) by simp
    ultimately have "\<exists>t'. preview_pending (preview_effect ?s) pid = Some t' \<and> cancelled t'"
      by (rule preview_effect_cancels)
    with Summary_settled Some ne show ?thesis by (simp add: commit_def)
  qed
next
  case (Preview_settled p fetched)
  with assms(3) show ?thesis by (simp split: option.splits)
qed

lemma commit_keeps_flag:
  assumes "tracked s" and "preview_pending s pid = Some t" and "cancelled t"
  shows "\<exists>t'. preview_pending (commit prev s) pid = Some t' \<and> cancelled t'"
  using assms preview_effect_cancels [OF assms(1,2)] by (simp add: commit_def)

lemma step_keeps_flag:
  assumes "consistent s" and "preview_pending s pid = Some t" and "cancelled t"
    and "preview_pending (step s e) pid = Some t'"
  shows "cancelled t'"
proof (cases e)
  case Click_refresh
  with assms show ?thesis by (simp add: refresh_def split: if_splits)
next
  case (Click_row i)
  let ?s = "s\<lparr>selectedFile := file_name (files_of s ! i)\<rparr>"
  have "tracked ?s"
    using consistent_tracked [OF assms(1)] by (simp add: tracked_cong [of ?s s])
  moreover have "preview_pending ?s pid = Some t"
    using assms(2) by simp
  ultimately have "\<exists>u. preview_pending (commit (selectedFile s) ?s) pid = Some u \<and> cancelled u"
    using assms(3) by (rule commit_keeps_flag)
  with assms Click_row show ?thesis by (auto split: if_splits)
next
  case (Summary_settled rid fetched)
  show ?thesis
  proof (cases "summary_pending s rid")
    case None
    with assms Summary_settled show ?thesis by simp
  next
    case (Some seen)
    let ?s = "refresh_resume seen (requestJson_settle fetched)
                (s\<lparr>summary_pending := (summary_pending s)(rid := None)\<rparr>)"
    have "tracked ?s"
      using consistent_tracked [OF assms(1)] by (simp add: tracked_cong [of ?s s])
    moreover have "preview_pending ?s pid = Some t"
      using assms(2) by simp
    ultimately have "\<exists>u. preview_pending (commit (selectedFile s) ?s) pid = Some u \<and> cancelled u"
      using assms(3) by (rule commit_keeps_flag)
    with assms Summary_settled Some show ?thesis by auto
  qed
next
  case (Preview_settled p fetched)
  with assms show ?thesis
    by (auto split: option.splits if_splits)
qed

lemma step_pending_origin:
  assumes "preview_pending (step s e) pid = Some t'" and "pid < next_id s"
  shows "\<exists>t. preview_pending s pid = Some t"
proof (cases e)
  case Click_refresh
  with assms show ?thesis by (auto simp: refresh_def split: if_splits)
next
  case (Click_row i)
  with assms show ?thesis
    using run_cleanup_dom [of "s\<lparr>selectedFile := file_name (files_of s ! i)\<rparr>" pid]
    by (auto simp: commit_def preview_effect_def Let_def split: if_splits)
next
  case (Summary_settled rid fetched)
  show ?thesis
  proof (cases "summary_pending s rid")
    case None
    with assms Summary_settled show ?thesis by simp
  next
    case (Some seen)
    let ?s = "refresh_resume seen (requestJson_settle fetched)
                (s\<lparr>summary_pending := (summary_pending s)(rid := None)\<rparr>)"
    from assms Summary_settled Some show ?thesis
      using run_cleanup_dom [of ?s pid]
      by (auto simp: commit_def preview_effect_def Let_def split: if_splits)
  qed
next
  case (Preview_settled p fetched)
  with assms show ?thesis
    by (auto split: option.splits if_splits)
qed

lemma next_id_step: "next_id s \<le> next_id (step s e)"
proof (cases e)
  case (Summary_settled rid fetched)
  then show ?thesis
    by (auto simp: commit_def preview_effect_def Let_def split: option.splits)
qed (auto simp: refresh_def commit_def preview_effect_def Let_def split: option.splits)

lemma run_keeps_flag:
  assumes "consistent s" and "preview_pending s pid = Some t" and "cancelled t"
    and "preview_pending (run s evs) pid = Some t'"
  shows "cancelled t'"
  using assms
proof (induction evs arbitrary: s t)
  case Nil
  then show ?case by simp
next
  case (Cons e evs)
  from Cons.prems(1,2) have lt: "pid < next_id s"
    by (auto simp: consistent_def tracked_def)
  show ?case
  proof (cases "preview_pending (step s e) pid")
    case None
    have "preview_pending (run (step s e) evs) pid = None"
      using None lt
    proof (induction evs arbitrary: s e)
      case Nil
      then show ?case by simp
    next
      case (Cons e' evs)
      have "pid < next_id (step s e)"
        using Cons.prems(2) next_id_step [of s e] by simp
      moreover have "preview_pending (step (step s e) e') pid = None"
        using step_pending_origin [of "step s e" e' pid] Cons.prems(1) calculation
        by (cases "preview_pending (step (step s e) e') pid") auto
      ultimately show ?case
        using Cons.IH [of "step s e" e'] by simp
    qed
    with Cons.prems(4) show ?thesis by simp
  next
    case (Some u)
    have "cancelled u"
      using step_keeps_flag [OF Cons.prems(1-3) Some] .
    from Cons.IH [OF consistent_step [OF Cons.prems(1)] Some this] Cons.prems(4)
    show ?thesis by simp
  qed
qed

lemma cancelled_settle_no_change:
  assumes "preview_pending s pid = Some t" and "cancelled t"
  shows "vars (step s (Preview_settled pid fetched)) = vars s"
  using assms by (simp add: vars_def preview_resume_def split: sum.splits)

lemma settle_changes_only_current:
  assumes "consistent s" and "preview_pending s pid = Some t"
    and "vars (step s (Preview_settled pid fetched)) \<noteq> vars s"
  shows "asked_file t = selectedFile s \<and> (\<forall>p u. preview_pending s p = Some u \<longrightarrow> p \<le> pid)"
proof -
  from assms(2,3) have nc: "\<not> cancelled t"
    using cancelled_settle_no_change [of s pid t fetched] by blast
  with assms(1,2) have "cleanup s = Some pid" "asked_file t = selectedFile s"
    by (auto simp: consistent_def tracked_def)
  with assms(1) show ?thesis
    by (auto simp: consistent_def tracked_def)
qed

lemma live_settle_stores_outcome:
  assumes "preview_pending s p = Some u" and "\<not> cancelled u"
  shows "preview (step s (Preview_settled p f)) = Some (stored_outcome (requestJson_settle f))"
    and "\<not> previewLoading (step s (Preview_settled p f))"
  using assms by (simp_all add: preview_resume_def stored_outcome_def split: sum.splits)

text \<open>
  C1. Let a preview request be in flight in a reachable state, let an event change the
  selection, and let any events follow that leave the request in flight. Then the settling
  of that request, fulfilled or rejected, changes no state variable. Moreover a preview
  request whose settling does change a state variable asked for the file selected at that
  moment, was issued after the superseded one, and its outcome is the preview stored.
\<close>

theorem superseded_preview_is_discarded:
  assumes "s0 = run start evs0"
    and "preview_pending s0 pid = Some t0"
    and "selectedFile (step s0 e) \<noteq> selectedFile s0"
    and "s = run (step s0 e) evs"
    and "preview_pending s pid = Some t"
  shows "vars (step s (Preview_settled pid fetched)) = vars s \<and>
         (\<forall>p u f. preview_pending s p = Some u \<longrightarrow>
            vars (step s (Preview_settled p f)) \<noteq> vars s \<longrightarrow>
            asked_file u = selectedFile s \<and> pid < p \<and>
            preview (step s (Preview_settled p f)) = Some (stored_outcome (requestJson_settle f)))"
proof -
  have c0: "consistent s0"
    unfolding assms(1) by (rule consistent_run [OF consistent_start])
  then have c1: "consistent (step s0 e)"
    by (rule consistent_step)
  then have c: "consistent s"
    unfolding assms(4) by (rule consistent_run)
  from step_cancels [OF c0 assms(2,3)] obtain t1
    where t1: "preview_pending (step s0 e) pid = Some t1" "cancelled t1" by blast
  have flag: "cancelled t"
    using run_keeps_flag [OF c1 t1] assms(4,5) by simp
  have first: "vars (step s (Preview_settled pid fetched)) = vars s"
    using cancelled_settle_no_change [OF assms(5) flag] .
  have second: "asked_file u = selectedFile s \<and> pid < p \<and>
      preview (step s (Preview_settled p f)) = Some (stored_outcome (requestJson_settle f))"
    if "preview_pending s p = Some u" and "vars (step s (Preview_settled p f)) \<noteq> vars s"
    for p u f
  proof -
    from settle_changes_only_current [OF c that]
    have a: "asked_file u = selectedFile s" and le: "pid \<le> p"
      using assms(5) by auto
    have "p \<noteq> pid"
      using that cancelled_settle_no_change [OF assms(5) flag, of f] by auto
    moreover have "\<not> cancelled u"
      using that cancelled_settle_no_change [OF that(1), of f] by blast
    ultimately show ?thesis
      using a le live_settle_stores_outcome(1) [OF that(1)] by simp
  qed
  from first second show ?thesis by blast
qed

theorem superseded_preview_is_discarded_witness:
  "selectedFile (run start [Summary_settled 0 (ok_summary [''a.csv'', ''b.csv''])]) = ''a.csv'' \<and>
   selectedFile (run start [Summary_settled 0 (ok_summary [''a.csv'', ''b.csv'']), Click_row 1]) = ''b.csv'' \<and>
   preview (run start [Summary_settled 0 (ok_summary [''a.csv'', ''b.csv'']), Click_row 1,
       Preview_settled 1 (ok_preview rows_a)]) = None \<and>
   preview (run start [Summary_settled 0 (ok_summary [''a.csv'', ''b.csv'']), Click_row 1,
       Preview_settled 1 (ok_preview rows_a), Preview_settled 2 (ok_preview rows_b)])
     = Some (Preview_rows rows_b) \<and>
   preview (run start [Summary_settled 0 (ok_summary [''a.csv'', ''b.csv'']), Click_row 1,
       Preview_settled 2 (ok_preview rows_b), Preview_settled 1 (ok_preview rows_a)])
     = Some (Preview_rows rows_b)"
proof -
  let ?a = "run start [Summary_settled 0 (ok_summary [''a.csv'', ''b.csv''])]"
  let ?b = "step ?a (Click_row 1)"
  let ?s = "run ?b [Preview_settled 2 (ok_preview rows_b)]"
  have h1: "preview_pending ?a 1 = Some \<lparr>asked_file = ''a.csv'', cancelled = False\<rparr>"
    by (simp add: eval_defs)
  have h2: "selectedFile ?b \<noteq> selectedFile ?a"
    by (simp add: eval_defs)
  have h3: "preview_pending ?s 1 = Some \<lparr>asked_file = ''a.csv'', cancelled = True\<rparr>"
    by (simp add: eval_defs)
  have h4: "preview_pending ?b 1 = Some \<lparr>asked_file = ''a.csv'', cancelled = True\<rparr>"
    by (simp add: eval_defs)
  have r: "?b = run ?b []"
    by simp
  have "vars (step ?s (Preview_settled 1 (ok_preview rows_a))) = vars ?s"
    using superseded_preview_is_discarded [OF refl h1 h2 refl h3] by blast
  then have late: "preview (step ?s (Preview_settled 1 (ok_preview rows_a))) = preview ?s"
    by (simp add: vars_def)
  have "vars (step ?b (Preview_settled 1 (ok_preview rows_a))) = vars ?b"
    using superseded_preview_is_discarded [OF refl h1 h2 r h4] by blast
  then have early: "preview (step ?b (Preview_settled 1 (ok_preview rows_a))) = preview ?b"
    by (simp add: vars_def)
  have "preview ?s = Some (Preview_rows rows_b)" "preview ?b = None"
    "preview (run ?b [Preview_settled 1 (ok_preview rows_a), Preview_settled 2 (ok_preview rows_b)])
      = Some (Preview_rows rows_b)"
    by (simp_all add: eval_defs)
  moreover have "selectedFile ?a = ''a.csv''" "selectedFile ?b = ''b.csv''"
    by (simp_all add: eval_defs)
  ultimately show ?thesis
    using late early by simp
qed

section \<open>Clearing the selection while a preview is loading\<close>

lemma empty_step:
  assumes "consistent s" and "selectedFile s = []" and "previewLoading s" and "preview s = None"
    and "selectedFile (step s e) = []"
  shows "previewLoading (step s e) \<and> preview (step s e) = None"
proof (cases e)
  case Click_refresh
  with assms show ?thesis by (simp add: refresh_def)
next
  case (Click_row i)
  with assms show ?thesis by (auto simp: commit_def split: if_splits)
next
  case (Summary_settled rid fetched)
  with assms show ?thesis by (auto simp: commit_def split: option.splits if_splits)
next
  case (Preview_settled pid fetched)
  show ?thesis
  proof (cases "preview_pending s pid")
    case None
    with assms Preview_settled show ?thesis by simp
  next
    case (Some t)
    from assms(1,2) have "cleanup s = None" by (simp add: consistent_def)
    with assms(1) Some have "cancelled t"
      by (auto simp: consistent_def tracked_def)
    with assms Some Preview_settled show ?thesis
      by (simp add: preview_resume_def split: sum.splits)
  qed
qed

lemma empty_run:
  assumes "consistent s" and "selectedFile s = []" and "previewLoading s" and "preview s = None"
    and "stays_empty s evs"
  shows "previewLoading (run s evs) \<and> preview (run s evs) = None"
  using assms
proof (induction evs arbitrary: s)
  case Nil
  then show ?case by simp
next
  case (Cons e evs)
  from Cons.prems have e: "selectedFile (step s e) = []" and rest: "stays_empty (step s e) evs"
    by simp_all
  from empty_step [OF Cons.prems(1-4) e]
  have "previewLoading (step s e)" "preview (step s e) = None" by simp_all
  from Cons.IH [OF consistent_step [OF Cons.prems(1)] e this rest]
  show ?case by simp
qed

lemma reset_needs_live_request:
  assumes "previewLoading s" and "\<not> previewLoading (step s e)"
  shows "\<exists>p f t. e = Preview_settled p f \<and> preview_pending s p = Some t \<and> \<not> cancelled t"
proof (cases e)
  case Click_refresh
  with assms show ?thesis by (simp add: refresh_def split: if_splits)
next
  case (Click_row i)
  with assms show ?thesis
    by (simp add: commit_def preview_effect_def Let_def split: if_splits)
next
  case (Summary_settled rid fetched)
  with assms show ?thesis
    by (simp add: commit_def preview_effect_def Let_def split: if_splits option.splits)
next
  case (Preview_settled p f)
  show ?thesis
  proof (cases "preview_pending s p")
    case None
    with assms Preview_settled show ?thesis by simp
  next
    case (Some t)
    with assms Preview_settled have "\<not> cancelled t"
      by (auto simp: preview_resume_def Let_def split: sum.splits)
    with Some Preview_settled show ?thesis by simp
  qed
qed

lemma cleanup_step_fresh:
  assumes "cleanup (step s e) = Some c" and "\<forall>c'. cleanup s = Some c' \<longrightarrow> n \<le> c'"
    and "n \<le> next_id s"
  shows "n \<le> c"
proof (cases e)
  case Click_refresh
  with assms show ?thesis by (simp add: refresh_def split: if_splits)
next
  case (Click_row i)
  with assms show ?thesis
    by (auto simp: commit_def preview_effect_def Let_def split: if_splits)
next
  case (Summary_settled rid fetched)
  with assms show ?thesis
    by (auto simp: commit_def preview_effect_def Let_def split: if_splits option.splits)
next
  case (Preview_settled p f)
  with assms show ?thesis
    by (auto split: option.splits)
qed

lemma cleanup_run_fresh:
  assumes "\<forall>c'. cleanup s = Some c' \<longrightarrow> n \<le> c'" and "n \<le> next_id s"
    and "cleanup (run s evs) = Some c"
  shows "n \<le> c"
  using assms
proof (induction evs arbitrary: s)
  case Nil
  then show ?case by simp
next
  case (Cons e evs)
  have "\<forall>c'. cleanup (step s e) = Some c' \<longrightarrow> n \<le> c'"
    using cleanup_step_fresh [of s e _ n] Cons.prems(1,2) by blast
  moreover have "n \<le> next_id (step s e)"
    using Cons.prems(2) next_id_step [of s e] by simp
  ultimately show ?case
    using Cons.IH [of "step s e"] Cons.prems(3) by simp
qed

text \<open>
  C10 as stated fails: after the selection has been cleared while a request was in flight,
  a click on another row starts a request of its own, and the settling of that request
  resets \<^verbatim>\<open>previewLoading\<close>.
\<close>

theorem previewLoading_reset_by_later_selection:
  "previewLoading (run start [Summary_settled 0 (ok_summary [''a.csv'', [], ''b.csv'']),
      Click_row 1]) \<and>
   selectedFile (run start [Summary_settled 0 (ok_summary [''a.csv'', [], ''b.csv'']),
      Click_row 1]) = [] \<and>
   \<not> previewLoading (run start [Summary_settled 0 (ok_summary [''a.csv'', [], ''b.csv'']),
      Click_row 1, Click_row 2, Preview_settled 2 (ok_preview rows_b)])"
  by (simp add: eval_defs)

text \<open>
  C10, as amended. Let the request of the last run of the preview effect be in flight in a
  reachable state (its flag is not set), and let an event make the selection empty. Then
  the selection was not empty before, the preview is empty and \<^verbatim>\<open>previewLoading\<close> is true
  after the event, \<^verbatim>\<open>previewLoading\<close> is still true after the superseded request settles,
  and it stays true (with an empty preview) through any events that leave the selection
  empty. The only step that resets it later is the settling of a preview request issued
  after the selection was cleared, for a selection that is not empty.
\<close>

theorem previewLoading_stuck_after_clearing_selection:
  assumes "s = run start evs0"
    and "preview_pending s pid = Some t" and "\<not> cancelled t"
    and "selectedFile (step s e) = []"
  shows "selectedFile s \<noteq> [] \<and> preview (step s e) = None \<and> previewLoading (step s e) \<and>
         previewLoading (step (step s e) (Preview_settled pid fetched)) \<and>
         (stays_empty (step s e) evs \<longrightarrow>
            previewLoading (run (step s e) evs) \<and> preview (run (step s e) evs) = None) \<and>
         (previewLoading (run (step s e) evs) \<longrightarrow>
          \<not> previewLoading (step (run (step s e) evs) e') \<longrightarrow>
            selectedFile (run (step s e) evs) \<noteq> [] \<and>
            (\<exists>p f. e' = Preview_settled p f \<and> pid < p))"
proof -
  have c: "consistent s"
    unfolding assms(1) by (rule consistent_run [OF consistent_start])
  with assms(2,3) have cl: "cleanup s = Some pid" and pl: "previewLoading s"
    by (auto simp: consistent_def tracked_def)
  with c have ne: "selectedFile s \<noteq> []"
    by (auto simp: consistent_def)
  from step_becomes_empty [OF ne assms(4)] pl
  have p1: "preview (step s e) = None" and l1: "previewLoading (step s e)"
    by simp_all
  have c1: "consistent (step s e)"
    using c by (rule consistent_step)
  have "stays_empty (step s e) [Preview_settled pid fetched]"
    using assms(4) by (simp split: option.splits)
  from empty_run [OF c1 assms(4) l1 p1 this]
  have after: "previewLoading (step (step s e) (Preview_settled pid fetched))"
    by simp
  have stay: "previewLoading (run (step s e) evs) \<and> preview (run (step s e) evs) = None"
    if "stays_empty (step s e) evs"
    using empty_run [OF c1 assms(4) l1 p1 that] .
  have later: "selectedFile (run (step s e) evs) \<noteq> [] \<and> (\<exists>p f. e' = Preview_settled p f \<and> pid < p)"
    if "previewLoading (run (step s e) evs)" and "\<not> previewLoading (step (run (step s e) evs) e')"
  proof -
    let ?s2 = "run (step s e) evs"
    have c2: "consistent ?s2"
      using c1 by (rule consistent_run)
    from reset_needs_live_request [OF that] obtain p f u
      where e': "e' = Preview_settled p f" and u: "preview_pending ?s2 p = Some u" "\<not> cancelled u"
      by blast
    from c2 u have cl2: "cleanup ?s2 = Some p"
      by (auto simp: consistent_def tracked_def)
    with c2 have sel: "selectedFile ?s2 \<noteq> []"
      by (auto simp: consistent_def)
    from c1 assms(4) have none: "cleanup (step s e) = None"
      by (simp add: consistent_def)
    from c assms(2) have "pid < next_id s"
      by (auto simp: consistent_def tracked_def)
    then have "Suc pid \<le> next_id (step s e)"
      using next_id_step [of s e] by simp
    with none cl2 have "Suc pid \<le> p"
      using cleanup_run_fresh [of "step s e" "Suc pid" evs p] by simp
    with e' sel show ?thesis by auto
  qed
  from ne p1 l1 after stay later show ?thesis by blast
qed

theorem previewLoading_stuck_after_clearing_selection_witness:
  "selectedFile (run start [Summary_settled 0 (ok_summary [''a.csv'', []])]) = ''a.csv'' \<and>
   selectedFile (run start [Summary_settled 0 (ok_summary [''a.csv'', []]), Click_row 1]) = [] \<and>
   preview (run start [Summary_settled 0 (ok_summary [''a.csv'', []]), Click_row 1]) = None \<and>
   previewLoading (run start [Summary_settled 0 (ok_summary [''a.csv'', []]), Click_row 1,
      Preview_settled 1 (ok_preview rows_a)]) \<and>
   previewLoading (run start [Summary_settled 0 (ok_summary [''a.csv'', []]), Click_row 1,
      Preview_settled 1 (ok_preview rows_a), Click_refresh])"
proof -
  let ?s = "run start [Summary_settled 0 (ok_summary [''a.csv'', []])]"
  let ?evs = "[Preview_settled 1 (ok_preview rows_a), Click_refresh]"
  have h1: "preview_pending ?s 1 = Some \<lparr>asked_file = ''a.csv'', cancelled = False\<rparr>"
    by (simp add: eval_defs)
  have h2: "\<not> cancelled \<lparr>asked_file = ''a.csv'', cancelled = False\<rparr>"
    by simp
  have h3: "selectedFile (step ?s (Click_row 1)) = []"
    by (simp add: eval_defs)
  have h4: "stays_empty (step ?s (Click_row 1)) ?evs"
    by (simp add: eval_defs)
  have "selectedFile ?s = ''a.csv''"
    by (simp add: eval_defs)
  with previewLoading_stuck_after_clearing_selection
    [OF refl h1 h2 h3, of "ok_preview rows_a" ?evs] h3 h4
  show ?thesis by simp
qed

end
